theory Spec2Isabelle
  imports Complex_Main "HOL-Library.AList"
begin

section \<open>Quota ledger and limit evaluation of dev\_server.py\<close>

subsection \<open>Clock reads\<close>

text \<open>
  One call of \<open>_consume_limit\<close> reads the clock three times: \<open>datetime.now(timezone.utc)\<close>
  (line 129), \<open>time.time()\<close> for the minute bucket (line 131) and \<open>time.time()\<close> again for
  the minute retry (line 157). The datetime is kept in whole microseconds since the epoch
  (its resolution); of each \<open>time.time()\<close> only the whole seconds are kept, since the code
  uses \<open>int(t // 60)\<close> and \<open>int(t % 60)\<close> alone, and both depend on the floor of \<open>t\<close> only.
\<close>

record clock =
  dt_now :: int
  time1 :: int
  time2 :: int

definition us_per_day :: int where
  "us_per_day = 86400000000"

text \<open>
  \<open>now.strftime("%Y-%m-%d")\<close>: the UTC calendar date. The key is kept as the number of the
  day since the epoch, which the date string renders one-to-one.
\<close>

definition utc_day :: "int \<Rightarrow> int" where
  "utc_day us = us div us_per_day"

text \<open>
  \<open>int((next_midnight - now).total_seconds())\<close>, where \<open>next_midnight\<close> is the start of the
  day of \<open>now\<close> plus one day: the whole seconds left in the day.
\<close>

definition seconds_until_midnight :: "int \<Rightarrow> int" where
  "seconds_until_midnight us = (us_per_day - us mod us_per_day) div 1000000"

subsection \<open>Decimal rendering of integers\<close>

definition digit_char :: "nat \<Rightarrow> char" where
  "digit_char d = ''0123456789'' ! d"

fun str_nat :: "nat \<Rightarrow> string" where
  "str_nat n = (if n < 10 then [digit_char n] else str_nat (n div 10) @ [digit_char (n mod 10)])"

declare str_nat.simps [simp del]

text \<open>Python's \<open>str\<close> on an \<open>int\<close>.\<close>

definition py_str :: "int \<Rightarrow> string" where
  "py_str i = (if i < 0 then CHR ''-'' # str_nat (nat (- i)) else str_nat (nat i))"

subsection \<open>The ledger\<close>

text \<open>
  The two SQLite tables: \<open>usage_day\<close> with primary key (day, scope) and \<open>usage_minute\<close> with
  primary key (minute, scope), each row holding an integer count. Opening the database and
  its statements are taken to succeed.
\<close>

record ledger =
  usage_day :: "int \<times> string \<Rightarrow> int option"
  usage_minute :: "int \<times> string \<Rightarrow> int option"

definition empty_ledger :: ledger where
  "empty_ledger = \<lparr>usage_day = (\<lambda>k. None), usage_minute = (\<lambda>k. None)\<rparr>"

text \<open>\<open>int(row[0]) if row else 0\<close>\<close>

definition count_of :: "int option \<Rightarrow> int" where
  "count_of row = (case row of None \<Rightarrow> 0 | Some n \<Rightarrow> n)"

text \<open>\<open>DELETE FROM usage_minute WHERE minute < ?\<close>\<close>

definition delete_minutes_before :: "int \<Rightarrow> (int \<times> string \<Rightarrow> int option) \<Rightarrow> (int \<times> string \<Rightarrow> int option)" where
  "delete_minutes_before m tbl = (\<lambda>k. if fst k < m then None else tbl k)"

text \<open>\<open>INSERT ... VALUES(?,?,1) ON CONFLICT(...) DO UPDATE SET count = count + 1\<close>\<close>

definition upsert_increment :: "int \<times> string \<Rightarrow> (int \<times> string \<Rightarrow> int option) \<Rightarrow> (int \<times> string \<Rightarrow> int option)" where
  "upsert_increment key tbl = tbl(key \<mapsto> (case tbl key of None \<Rightarrow> 1 | Some n \<Rightarrow> n + 1))"

subsection \<open>The limit evaluator\<close>

type_synonym headers = "(string \<times> string) list"

type_synonym decision = "bool \<times> int \<times> headers"

abbreviation ok_of :: "decision \<Rightarrow> bool" where
  "ok_of d \<equiv> fst d"

abbreviation retry_after_of :: "decision \<Rightarrow> int" where
  "retry_after_of d \<equiv> fst (snd d)"

abbreviation headers_of :: "decision \<Rightarrow> headers" where
  "headers_of d \<equiv> snd (snd d)"

text \<open>
  \<open>_consume_limit\<close> (lines 125 to 186). The connection runs with the sqlite3 module's
  default transaction handling: the \<open>DELETE\<close> opens a transaction, which only
  \<open>conn.commit()\<close> on the allowed path makes durable; the denied path returns without a
  commit and \<open>conn.close()\<close> discards the transaction, so the ledger is returned as it was.
\<close>

definition consume_limit :: "ledger \<Rightarrow> clock \<Rightarrow> string \<Rightarrow> int \<Rightarrow> int \<Rightarrow> decision \<times> ledger" where
  "consume_limit db c scope rpd_limit rpm_limit =
    (let day = utc_day (dt_now c);
         minute = time1 c div 60;
         pruned = delete_minutes_before (minute - 10) (usage_minute db);
         day_count = count_of (usage_day db (day, scope));
         minute_count = count_of (pruned (minute, scope));
         (allowed, retry_after) =
            (if rpd_limit > 0 \<and> day_count \<ge> rpd_limit
             then (False, max 60 (seconds_until_midnight (dt_now c)))
             else (True, 0));
         (allowed, retry_after) =
            (if allowed \<and> rpm_limit > 0 \<and> minute_count \<ge> rpm_limit
             then (False, max 1 (60 - time2 c mod 60))
             else (allowed, retry_after));
         hdrs = [(''X-RateLimit-Scope'', scope),
                 (''X-RateLimit-RPD-Limit'', py_str rpd_limit),
                 (''X-RateLimit-RPD-Used'', py_str day_count),
                 (''X-RateLimit-RPM-Limit'', py_str rpm_limit),
                 (''X-RateLimit-RPM-Used'', py_str minute_count)]
     in if \<not> allowed then ((False, retry_after, hdrs), db)
        else ((True, 0,
               AList.update ''X-RateLimit-RPM-Used'' (py_str (minute_count + 1))
                 (AList.update ''X-RateLimit-RPD-Used'' (py_str (day_count + 1)) hdrs)),
              \<lparr>usage_day = upsert_increment (day, scope) (usage_day db),
               usage_minute = upsert_increment (minute, scope) pruned\<rparr>))"

text \<open>The counts an evaluation reads.\<close>

definition day_count :: "ledger \<Rightarrow> clock \<Rightarrow> string \<Rightarrow> int" where
  "day_count db c scope = count_of (usage_day db (utc_day (dt_now c), scope))"

definition minute_count :: "ledger \<Rightarrow> clock \<Rightarrow> string \<Rightarrow> int" where
  "minute_count db c scope = count_of (usage_minute db (time1 c div 60, scope))"

text \<open>The five diagnostic headers, in the order the dictionary is built.\<close>

definition rate_headers :: "string \<Rightarrow> int \<Rightarrow> int \<Rightarrow> int \<Rightarrow> int \<Rightarrow> headers" where
  "rate_headers scope rpd used_d rpm used_m =
     [(''X-RateLimit-Scope'', scope),
      (''X-RateLimit-RPD-Limit'', py_str rpd),
      (''X-RateLimit-RPD-Used'', py_str used_d),
      (''X-RateLimit-RPM-Limit'', py_str rpm),
      (''X-RateLimit-RPM-Used'', py_str used_m)]"

text \<open>
  Sequential admission attempts on one scope with one limit pair: one call of
  \<open>_consume_limit\<close> per clock of the list, each on the ledger the previous call left.
\<close>

fun run_attempts :: "string \<Rightarrow> int \<Rightarrow> int \<Rightarrow> ledger \<Rightarrow> clock list \<Rightarrow> decision list" where
  "run_attempts scope rpd rpm db [] = []"
| "run_attempts scope rpd rpm db (c # cs) =
     fst (consume_limit db c scope rpd rpm)
       # run_attempts scope rpd rpm (snd (consume_limit db c scope rpd rpm)) cs"

fun ledger_after :: "string \<Rightarrow> int \<Rightarrow> int \<Rightarrow> ledger \<Rightarrow> clock list \<Rightarrow> ledger" where
  "ledger_after scope rpd rpm db [] = db"
| "ledger_after scope rpd rpm db (c # cs) =
     ledger_after scope rpd rpm (snd (consume_limit db c scope rpd rpm)) cs"

definition admitted :: "decision list \<Rightarrow> nat" where
  "admitted ds = length (filter ok_of ds)"

subsection \<open>Configured limits\<close>

text \<open>\<open>_default_model_limits\<close> (lines 24 to 40), returning (RPD, RPM).\<close>

definition default_model_limits :: "string \<Rightarrow> int \<times> int" where
  "default_model_limits model =
     (if model = ''gemini-2.5-flash'' then (20, 5)
      else if model = ''gemini-2.5-flash-lite'' then (20, 10)
      else if model = ''gemini-3-flash'' then (20, 5)
      else if take 8 model = ''gemma-3-'' then (14400, 30)
      else (20, 5))"

text \<open>
  The values \<open>json.loads\<close> produces. A finite float is the rational it denotes.
  Dictionary items are kept in order; the keys of a Python dictionary are distinct.
\<close>

datatype pyfloat = Finite rat | PosInf | NegInf | NaN

datatype pyval =
    PNone
  | PBool bool
  | PInt int
  | PFloat pyfloat
  | PStr string
  | PList "pyval list"
  | PDict "(pyval \<times> pyval) list"

text \<open>\<open>isinstance(v, dict)\<close>\<close>

fun is_dict :: "pyval \<Rightarrow> bool" where
  "is_dict (PDict kvs) = True"
| "is_dict v = False"

text \<open>\<open>d.get(key)\<close> on the items of a dictionary, for a string key.\<close>

definition dict_get :: "(pyval \<times> pyval) list \<Rightarrow> string \<Rightarrow> pyval" where
  "dict_get kvs key = (case map_of kvs (PStr key) of None \<Rightarrow> PNone | Some v \<Rightarrow> v)"

text \<open>
  Python's \<open>int(x)\<close>, \<open>None\<close> where it raises. On a string it is the parameter
  \<open>int_of_str\<close> (the built-in's parser); a float is truncated towards zero, and
  infinities and NaN raise.
\<close>

fun py_int :: "(string \<Rightarrow> int option) \<Rightarrow> pyval \<Rightarrow> int option" where
  "py_int int_of_str PNone = None"
| "py_int int_of_str (PBool b) = Some (if b then 1 else 0)"
| "py_int int_of_str (PInt n) = Some n"
| "py_int int_of_str (PFloat (Finite r)) = Some (if r < 0 then \<lceil>r\<rceil> else \<lfloor>r\<rfloor>)"
| "py_int int_of_str (PFloat f) = None"
| "py_int int_of_str (PStr s) = int_of_str s"
| "py_int int_of_str (PList xs) = None"
| "py_int int_of_str (PDict kvs) = None"

text \<open>Truth value of a decoded JSON value, as \<open>x or y\<close> tests it.\<close>

fun py_truthy :: "pyval \<Rightarrow> bool" where
  "py_truthy PNone = False"
| "py_truthy (PBool b) = b"
| "py_truthy (PInt n) = (n \<noteq> 0)"
| "py_truthy (PFloat (Finite r)) = (r \<noteq> 0)"
| "py_truthy (PFloat f) = True"
| "py_truthy (PStr s) = (s \<noteq> [])"
| "py_truthy (PList xs) = (xs \<noteq> [])"
| "py_truthy (PDict kvs) = (kvs \<noteq> [])"

text \<open>
  \<open>str.strip()\<close> is a parameter \<open>str_strip\<close> of every function that calls it, as
  \<open>json.loads\<close> and \<open>int\<close> on strings are: which characters count as white space is
  the built-in's matter, and nothing below depends on it.
\<close>

text \<open>\<open>os.environ\<close> and \<open>os.environ.get(name, default)\<close>.\<close>

type_synonym environ = "string \<Rightarrow> string option"

definition environ_get :: "environ \<Rightarrow> string \<Rightarrow> string \<Rightarrow> string" where
  "environ_get env name dflt = (case env name of None \<Rightarrow> dflt | Some v \<Rightarrow> v)"

type_synonym limits = "string \<Rightarrow> (int \<times> int) option"

text \<open>The loop of \<open>_parse_model_limits\<close> over \<open>data.items()\<close> (lines 53 to 63).\<close>

fun parse_entries :: "(string \<Rightarrow> int option) \<Rightarrow> (pyval \<times> pyval) list \<Rightarrow> limits \<Rightarrow> limits" where
  "parse_entries int_of_str [] acc = acc"
| "parse_entries int_of_str ((PStr k, PDict v) # rest) acc =
     (case py_int int_of_str (dict_get v ''rpd'') of
        None \<Rightarrow> parse_entries int_of_str rest acc
      | Some rpd_i \<Rightarrow>
         (case py_int int_of_str (dict_get v ''rpm'') of
            None \<Rightarrow> parse_entries int_of_str rest acc
          | Some rpm_i \<Rightarrow> parse_entries int_of_str rest (acc(k \<mapsto> (max 0 rpd_i, max 0 rpm_i)))))"
| "parse_entries int_of_str (kv # rest) acc = parse_entries int_of_str rest acc"

text \<open>
  \<open>_parse_model_limits\<close> (lines 43 to 64). \<open>json_loads\<close> is \<open>json.loads\<close>, \<open>None\<close>
  where it raises.
\<close>

definition parse_model_limits ::
  "(string \<Rightarrow> pyval option) \<Rightarrow> (string \<Rightarrow> int option) \<Rightarrow> (string \<Rightarrow> string) \<Rightarrow> environ \<Rightarrow> limits" where
  "parse_model_limits json_loads int_of_str str_strip env =
     (let raw = str_strip (environ_get env ''GEMINI_MODEL_LIMITS_JSON'' '''')
      in if raw = [] then Map.empty
         else (case json_loads raw of
                 None \<Rightarrow> Map.empty
               | Some (PDict items) \<Rightarrow> parse_entries int_of_str items Map.empty
               | Some data \<Rightarrow> Map.empty))"

text \<open>\<open>model_limits.get(model, _default_model_limits(model))\<close>\<close>

definition limits_get :: "limits \<Rightarrow> string \<Rightarrow> int \<times> int" where
  "limits_get model_limits model = (case model_limits model of None \<Rightarrow> default_model_limits model | Some p \<Rightarrow> p)"

subsection \<open>The fallback selector\<close>

text \<open>
  A request handler reads the clock anew in every call of \<open>_consume_limit\<close>. The clocks
  of successive calls are given by a timeline, and the state threaded through a request
  is the ledger together with the scopes evaluated so far, in call order; the next call
  reads the clock at the position that list has reached.
\<close>

type_synonym timeline = "nat \<Rightarrow> clock"

record world =
  wdb :: ledger
  calls :: "string list"

definition consume_limit_at :: "timeline \<Rightarrow> world \<Rightarrow> string \<Rightarrow> int \<Rightarrow> int \<Rightarrow> decision \<times> world" where
  "consume_limit_at clk w scope rpd rpm =
     (fst (consume_limit (wdb w) (clk (length (calls w))) scope rpd rpm),
      \<lparr>wdb = snd (consume_limit (wdb w) (clk (length (calls w))) scope rpd rpm),
       calls = calls w @ [scope]\<rparr>)"

text \<open>
  The loop of \<open>_pick_model\<close> (lines 198 to 207), with the loop variables
  \<open>last_headers\<close> and \<open>max_retry_after\<close>; \<open>max_retry_after or 60\<close> after the loop.
\<close>

fun pick_loop :: "timeline \<Rightarrow> limits \<Rightarrow> string set \<Rightarrow> string list \<Rightarrow> headers option \<Rightarrow> int \<Rightarrow> world
    \<Rightarrow> (string option \<times> headers option \<times> int) \<times> world" where
  "pick_loop clk model_limits allowed [] last_headers max_retry_after w =
     ((None, last_headers, if max_retry_after = 0 then 60 else max_retry_after), w)"
| "pick_loop clk model_limits allowed (model # rest) last_headers max_retry_after w =
     (if model \<notin> allowed then pick_loop clk model_limits allowed rest last_headers max_retry_after w
      else
        (case consume_limit_at clk w (''gemini:'' @ model)
                (fst (limits_get model_limits model)) (snd (limits_get model_limits model)) of
           ((ok, retry_after, hdrs), w') \<Rightarrow>
             if ok then ((Some model, Some hdrs, 0), w')
             else pick_loop clk model_limits allowed rest (Some hdrs) (max max_retry_after retry_after) w'))"

text \<open>\<open>_pick_model\<close> (lines 188 to 207).\<close>

definition pick_model ::
  "(string \<Rightarrow> pyval option) \<Rightarrow> (string \<Rightarrow> int option) \<Rightarrow> (string \<Rightarrow> string) \<Rightarrow> environ \<Rightarrow> timeline
     \<Rightarrow> string list \<Rightarrow> string set \<Rightarrow> world \<Rightarrow> (string option \<times> headers option \<times> int) \<times> world" where
  "pick_model json_loads int_of_str str_strip env clk preferred allowed w =
     pick_loop clk (parse_model_limits json_loads int_of_str str_strip env) allowed preferred None 0 w"

text \<open>
  The evaluations the selector makes, one per preferred model that is allowed, in order,
  up to and including the first that is admitted: the model, its decision and the state
  the evaluation left.
\<close>

fun attempts :: "timeline \<Rightarrow> limits \<Rightarrow> string set \<Rightarrow> string list \<Rightarrow> world
    \<Rightarrow> (string \<times> decision \<times> world) list" where
  "attempts clk model_limits allowed [] w = []"
| "attempts clk model_limits allowed (model # rest) w =
     (if model \<notin> allowed then attempts clk model_limits allowed rest w
      else
        (case consume_limit_at clk w (''gemini:'' @ model)
                (fst (limits_get model_limits model)) (snd (limits_get model_limits model)) of
           (d, w') \<Rightarrow>
             (model, d, w') # (if fst d then [] else attempts clk model_limits allowed rest w')))"

abbreviation model_of :: "string \<times> decision \<times> world \<Rightarrow> string" where
  "model_of a \<equiv> fst a"

abbreviation decision_of :: "string \<times> decision \<times> world \<Rightarrow> decision" where
  "decision_of a \<equiv> fst (snd a)"

abbreviation world_of :: "string \<times> decision \<times> world \<Rightarrow> world" where
  "world_of a \<equiv> snd (snd a)"

subsection \<open>Admission in the request handler\<close>

text \<open>\<open>str.split(",")\<close> and \<open>_split_csv\<close> (lines 67 and 68).\<close>

fun py_split :: "char \<Rightarrow> string \<Rightarrow> string list" where
  "py_split sep [] = [[]]"
| "py_split sep (x # xs) =
     (if x = sep then [] # py_split sep xs
      else (case py_split sep xs of [] \<Rightarrow> [[x]] | w # ws \<Rightarrow> (x # w) # ws))"

definition split_csv :: "(string \<Rightarrow> string) \<Rightarrow> string \<Rightarrow> string list" where
  "split_csv str_strip v =
     map str_strip (filter (\<lambda>v. v \<noteq> [] \<and> str_strip v \<noteq> []) (py_split CHR '','' v))"

text \<open>\<open>{**a, **b}\<close>: the keys of \<open>a\<close> keep their place, those of \<open>b\<close> win.\<close>

definition dict_merge :: "headers \<Rightarrow> headers \<Rightarrow> headers" where
  "dict_merge a b = fold (\<lambda>kv acc. AList.update (fst kv) (snd kv) acc) b a"

text \<open>
  The request as \<open>do_POST\<close> sees it: the path, and the body the \<open>try\<close> block of lines
  244 to 248 decodes (\<open>None\<close> where it raises).
\<close>

record request =
  path :: string
  body :: "pyval option"

datatype response =
    Response404
  | Response500
  | Response400 string
  | Response429 int headers string
  | Raised
  | Admitted string headers headers

text \<open>
  \<open>(body.get("model") or "").strip()\<close> (line 272), \<open>None\<close> where it raises
  \<open>AttributeError\<close>: the body is no dictionary, or the value is true and no string.
\<close>

fun requested_model :: "(string \<Rightarrow> string) \<Rightarrow> pyval \<Rightarrow> string option" where
  "requested_model str_strip (PDict kvs) =
     (if py_truthy (dict_get kvs ''model'')
      then (case dict_get kvs ''model'' of PStr s \<Rightarrow> Some (str_strip s) | v \<Rightarrow> None)
      else Some [])"
| "requested_model str_strip v = None"

text \<open>
  The call of \<open>_pick_model\<close> and the 429 answer that follows it when no model is chosen
  (lines 291 to 301 and 309 to 319).
\<close>

definition select_or_429 ::
  "(string \<Rightarrow> pyval option) \<Rightarrow> (string \<Rightarrow> int option) \<Rightarrow> (string \<Rightarrow> string) \<Rightarrow> environ \<Rightarrow> timeline
     \<Rightarrow> string \<Rightarrow> string set \<Rightarrow> headers \<Rightarrow> world \<Rightarrow> response \<times> world" where
  "select_or_429 json_loads int_of_str str_strip env clk models_var allowed_models total_headers w =
     (case pick_model json_loads int_of_str str_strip env clk
             (split_csv str_strip (environ_get env models_var
                ''gemini-2.5-flash,gemini-2.5-flash-lite,gemini-3-flash'')) allowed_models w of
        ((model, rl_headers, retry_after), w') \<Rightarrow>
          if model = None \<or> model = Some []
          then (Response429 retry_after
                  (dict_merge total_headers (case rl_headers of None \<Rightarrow> [] | Some h \<Rightarrow> h))
                  ''Rate limit exceeded for all allowed models.'', w')
          else (Admitted (the model) total_headers (case rl_headers of None \<Rightarrow> [] | Some h \<Rightarrow> h), w'))"

text \<open>Lines 270 to 319: the resource scope, after the site total has let the request pass.\<close>

definition admit_resource ::
  "(string \<Rightarrow> pyval option) \<Rightarrow> (string \<Rightarrow> int option) \<Rightarrow> (string \<Rightarrow> string) \<Rightarrow> environ \<Rightarrow> timeline
     \<Rightarrow> request \<Rightarrow> pyval \<Rightarrow> string set \<Rightarrow> headers \<Rightarrow> world \<Rightarrow> response \<times> world" where
  "admit_resource json_loads int_of_str str_strip env clk req bdy allowed_models total_headers w =
     (if path req = ''/api/gemini'' then
        (case requested_model str_strip bdy of
           None \<Rightarrow> (Raised, w)
         | Some requested \<Rightarrow>
             if requested \<noteq> [] \<and> requested \<notin> allowed_models
             then (Response400 (''Model not allowed: '' @ requested), w)
             else if requested \<noteq> [] then
               (case consume_limit_at clk w (''gemini:'' @ requested)
                       (fst (limits_get (parse_model_limits json_loads int_of_str str_strip env) requested))
                       (snd (limits_get (parse_model_limits json_loads int_of_str str_strip env) requested)) of
                  ((ok, retry_after, rl_headers), w') \<Rightarrow>
                    if \<not> ok
                    then (Response429 retry_after (dict_merge total_headers rl_headers)
                            ''Rate limit exceeded for requested model.'', w')
                    else (Admitted requested total_headers rl_headers, w'))
             else select_or_429 json_loads int_of_str str_strip env clk ''GEMINI_MARKCRAFT_MODELS''
                    allowed_models total_headers w)
      else select_or_429 json_loads int_of_str str_strip env clk ''GEMINI_FLASHCRAFT_MODELS''
             allowed_models total_headers w)"

text \<open>
  \<open>do_POST\<close> from line 220 up to the point where a model is chosen (line 319): every
  return before that point is a response, an exception that nothing catches is
  \<open>Raised\<close>, and \<open>Admitted\<close> carries the model and the two header dictionaries with which
  the handler goes on to build and forward the upstream request.
\<close>

definition do_POST ::
  "(string \<Rightarrow> pyval option) \<Rightarrow> (string \<Rightarrow> int option) \<Rightarrow> (string \<Rightarrow> string) \<Rightarrow> environ \<Rightarrow> timeline
     \<Rightarrow> request \<Rightarrow> world \<Rightarrow> response \<times> world" where
  "do_POST json_loads int_of_str str_strip env clk req w =
     (if path req \<noteq> ''/api/gemini'' \<and> path req \<noteq> ''/api/flashcraft/generate_deck''
      then (Response404, w)
      else if str_strip (environ_get env ''GEMINI_API_KEY'' '''') = [] then (Response500, w)
      else
        (case body req of
           None \<Rightarrow> (Response400 ''Invalid JSON body'', w)
         | Some bdy \<Rightarrow>
            (let allowed0 = set (split_csv str_strip (environ_get env ''GEMINI_ALLOWED_MODELS'' ''gemini-2.5-flash''));
                 allowed_models = (if allowed0 = {} then {''gemini-2.5-flash''} else allowed0)
             in case int_of_str (environ_get env ''SITE_TOTAL_RPD_LIMIT'' ''0'') of
                  None \<Rightarrow> (Raised, w)
                | Some total_rpd_limit \<Rightarrow>
                   (case int_of_str (environ_get env ''SITE_TOTAL_RPM_LIMIT'' ''0'') of
                      None \<Rightarrow> (Raised, w)
                    | Some total_rpm_limit \<Rightarrow>
                       if total_rpd_limit > 0 \<or> total_rpm_limit > 0 then
                         (case consume_limit_at clk w ''site_total'' total_rpd_limit total_rpm_limit of
                            ((ok_total, retry_after_total, total_headers), w') \<Rightarrow>
                              if \<not> ok_total
                              then (Response429 retry_after_total total_headers
                                      ''Site quota exceeded. Try again later.'', w')
                              else admit_resource json_loads int_of_str str_strip env clk req bdy
                                     allowed_models total_headers w')
                       else admit_resource json_loads int_of_str str_strip env clk req bdy
                              allowed_models [] w))))"

subsection \<open>Concrete scenarios\<close>

text \<open>14 November 2023, 22:13:20 UTC, all three clock reads at the same instant.\<close>

definition clock0 :: clock where
  "clock0 = \<lparr>dt_now = 1700000000000000, time1 = 1700000000, time2 = 1700000000\<rparr>"

text \<open>The ledger after one admission of scope \<open>gemini:X\<close> at that instant.\<close>

definition ledger1 :: ledger where
  "ledger1 = snd (consume_limit empty_ledger clock0 ''gemini:X'' 1 1)"

text \<open>
  A limits override as the environment may hold it, the value \<open>json.loads\<close> decodes from
  it, and two values that are no JSON object. For the scenarios only, the three parameters
  are instantiated by stand-ins: \<open>loads0\<close> decodes the three values, \<open>int_of_str0\<close> reads
  the two numerals the scenarios use, and \<open>strip0\<close> removes ASCII white space, which is all
  the built-in removes on the ASCII strings of the scenarios.
\<close>

definition ascii_space :: "char \<Rightarrow> bool" where
  "ascii_space c = ((of_char c :: nat) \<in> {9, 10, 11, 12, 13, 28, 29, 30, 31, 32})"

definition strip0 :: "string \<Rightarrow> string" where
  "strip0 s = rev (dropWhile ascii_space (rev (dropWhile ascii_space s)))"

definition json0 :: string where
  \<open>json0 = ''{"a":{"rpd":"x","rpm":3},"b":{"rpd":7.9,"rpm":-1}}''\<close>

definition loads0 :: "string \<Rightarrow> pyval option" where
  "loads0 raw =
     (if raw = json0
      then Some (PDict [(PStr ''a'', PDict [(PStr ''rpd'', PStr ''x''), (PStr ''rpm'', PInt 3)]),
                        (PStr ''b'', PDict [(PStr ''rpd'', PFloat (Finite (79 / 10))), (PStr ''rpm'', PInt (- 1))])])
      else if raw = ''[20, 5]'' then Some (PList [PInt 20, PInt 5])
      else None)"

definition int_of_str0 :: "string \<Rightarrow> int option" where
  "int_of_str0 s = (if s = ''0'' then Some 0 else if s = ''5'' then Some 5 else None)"

definition env0 :: environ where
  "env0 = [''GEMINI_MODEL_LIMITS_JSON'' \<mapsto> CHR '' '' # json0 @ [CHR 0x0A]]"

definition env1 :: environ where
  "env1 = [''GEMINI_MODEL_LIMITS_JSON'' \<mapsto> ''[20, 5]'']"

definition env2 :: environ where
  "env2 = [''GEMINI_MODEL_LIMITS_JSON'' \<mapsto> ''{oops'']"

text \<open>
  A ledger on which scope \<open>gemini:a\<close> has used up its minute and scope \<open>gemini:b\<close> its day
  (under the overrides above, \<open>b\<close> has the limits (7, 0) and \<open>a\<close> and \<open>c\<close> the default (20, 5)),
  and a timeline on which every call reads the clock at the same instant.
\<close>

definition ledger_ab :: ledger where
  "ledger_ab = \<lparr>usage_day = [(19675, ''gemini:a'') \<mapsto> 3, (19675, ''gemini:b'') \<mapsto> 7],
               usage_minute = [(28333333, ''gemini:a'') \<mapsto> 5]\<rparr>"

definition world_ab :: world where
  "world_ab = \<lparr>wdb = ledger_ab, calls = []\<rparr>"

definition clk0 :: timeline where
  "clk0 = (\<lambda>n. clock0)"

text \<open>
  A configuration with a site total of 5 requests a day and two allowed models, a request
  that names no model, and two states: one with the site total used up, one with the site
  total open and the first preferred model used up.
\<close>

definition env_site :: environ where
  "env_site = [''GEMINI_API_KEY'' \<mapsto> ''k'', ''SITE_TOTAL_RPD_LIMIT'' \<mapsto> ''5'',
               ''GEMINI_ALLOWED_MODELS'' \<mapsto> ''gemini-2.5-flash, gemini-2.5-flash-lite'']"

definition req0 :: request where
  "req0 = \<lparr>path = ''/api/gemini'', body = Some (PDict [])\<rparr>"

definition world_site_full :: world where
  "world_site_full = \<lparr>wdb = \<lparr>usage_day = [(19675, ''site_total'') \<mapsto> 5],
                                usage_minute = Map.empty\<rparr>, calls = []\<rparr>"

definition world_site_open :: world where
  "world_site_open = \<lparr>wdb = \<lparr>usage_day = [(19675, ''site_total'') \<mapsto> 1,
                                            (19675, ''gemini:gemini-2.5-flash'') \<mapsto> 20],
                                usage_minute = Map.empty\<rparr>, calls = []\<rparr>"

section \<open>Properties\<close>

subsection \<open>One evaluation\<close>

lemma pruned_current: "delete_minutes_before (m - 10) tbl (m, s) = tbl (m, s)"
  by (simp add: delete_minutes_before_def)

lemma consume_limit_unfold:
  "consume_limit db c s d m =
    (if d > 0 \<and> day_count db c s \<ge> d
     then ((False, max 60 (seconds_until_midnight (dt_now c)),
            rate_headers s d (day_count db c s) m (minute_count db c s)), db)
     else if m > 0 \<and> minute_count db c s \<ge> m
     then ((False, max 1 (60 - time2 c mod 60),
            rate_headers s d (day_count db c s) m (minute_count db c s)), db)
     else ((True, 0, rate_headers s d (day_count db c s + 1) m (minute_count db c s + 1)),
           \<lparr>usage_day = upsert_increment (utc_day (dt_now c), s) (usage_day db),
            usage_minute = upsert_increment (time1 c div 60, s)
               (delete_minutes_before (time1 c div 60 - 10) (usage_minute db))\<rparr>))"
  by (simp add: consume_limit_def day_count_def minute_count_def rate_headers_def pruned_current Let_def)

lemma count_of_upsert: "count_of (upsert_increment k tbl k) = count_of (tbl k) + 1"
  by (simp add: upsert_increment_def count_of_def split: option.splits)

lemma upsert_other: "k' \<noteq> k \<Longrightarrow> upsert_increment k tbl k' = tbl k'"
  by (simp add: upsert_increment_def)

lemma consume_allowed_counts:
  assumes "fst (fst (consume_limit db c s d m))"
  shows "day_count (snd (consume_limit db c s d m)) c s = day_count db c s + 1"
    and "minute_count (snd (consume_limit db c s d m)) c s = minute_count db c s + 1"
  using assms
  by (auto simp add: consume_limit_unfold day_count_def minute_count_def count_of_upsert pruned_current split: if_splits)

lemma consume_denied_ledger:
  assumes "\<not> fst (fst (consume_limit db c s d m))"
  shows "snd (consume_limit db c s d m) = db"
  using assms by (auto simp add: consume_limit_unfold split: if_splits)

subsection \<open>Sequences of evaluations\<close>

lemma length_run_attempts [simp]: "length (run_attempts s d m db cs) = length cs"
  by (induction cs arbitrary: db) simp_all

lemma run_attempts_append:
  "run_attempts s d m db (xs @ ys) =
     run_attempts s d m db xs @ run_attempts s d m (ledger_after s d m db xs) ys"
  by (induction xs arbitrary: db) simp_all

lemma ledger_after_append:
  "ledger_after s d m db (xs @ ys) = ledger_after s d m (ledger_after s d m db xs) ys"
  by (induction xs arbitrary: db) simp_all

lemma take_run_attempts:
  "take i (run_attempts s d m db cs) = run_attempts s d m db (take i cs)"
proof -
  have "run_attempts s d m db cs = run_attempts s d m db (take i cs @ drop i cs)" by simp
  also have "\<dots> = run_attempts s d m db (take i cs)
        @ run_attempts s d m (ledger_after s d m db (take i cs)) (drop i cs)"
    by (rule run_attempts_append)
  finally show ?thesis by (simp add: min_def)
qed

lemma nth_run_attempts:
  assumes "i < length cs"
  shows "run_attempts s d m db cs ! i
          = fst (consume_limit (ledger_after s d m db (take i cs)) (cs ! i) s d m)"
proof -
  from assms have "cs = take i cs @ cs ! i # drop (Suc i) cs"
    by (simp add: id_take_nth_drop)
  then have "run_attempts s d m db cs = run_attempts s d m db (take i cs @ cs ! i # drop (Suc i) cs)"
    by simp
  also have "\<dots> = run_attempts s d m db (take i cs)
        @ run_attempts s d m (ledger_after s d m db (take i cs)) (cs ! i # drop (Suc i) cs)"
    by (rule run_attempts_append)
  finally have "run_attempts s d m db cs ! i
      = (run_attempts s d m db (take i cs)
        @ run_attempts s d m (ledger_after s d m db (take i cs)) (cs ! i # drop (Suc i) cs)) ! i"
    by simp
  also have "\<dots> = run_attempts s d m (ledger_after s d m db (take i cs)) (cs ! i # drop (Suc i) cs) ! 0"
    using assms by (simp add: nth_append min_def)
  finally show ?thesis by simp
qed

lemma step_day_count:
  assumes "utc_day (dt_now c) = D"
  shows "count_of (usage_day (snd (consume_limit db c s d m)) (D, s))
          = count_of (usage_day db (D, s)) + (if fst (fst (consume_limit db c s d m)) then 1 else 0)"
  using assms consume_allowed_counts(1)[of db c s d m] consume_denied_ledger[of db c s d m]
  by (auto simp add: day_count_def)

lemma step_minute_count:
  assumes "time1 c div 60 = B"
  shows "count_of (usage_minute (snd (consume_limit db c s d m)) (B, s))
          = count_of (usage_minute db (B, s)) + (if fst (fst (consume_limit db c s d m)) then 1 else 0)"
  using assms consume_allowed_counts(2)[of db c s d m] consume_denied_ledger[of db c s d m]
  by (auto simp add: minute_count_def)

lemma admitted_Cons: "admitted (x # xs) = (if fst x then 1 else 0) + admitted xs"
  by (simp add: admitted_def)

lemma admitted_Nil [simp]: "admitted [] = 0"
  by (simp add: admitted_def)

lemma day_count_after:
  assumes "\<forall>c \<in> set cs. utc_day (dt_now c) = D"
  shows "count_of (usage_day (ledger_after s d m db cs) (D, s))
          = count_of (usage_day db (D, s)) + int (admitted (run_attempts s d m db cs))"
  using assms
proof (induction cs arbitrary: db)
  case Nil
  then show ?case by simp
next
  case (Cons c cs)
  then have D: "utc_day (dt_now c) = D" and rest: "\<forall>c \<in> set cs. utc_day (dt_now c) = D"
    by simp_all
  show ?case
    using Cons.IH[OF rest, of "snd (consume_limit db c s d m)"] step_day_count[OF D, of db s d m]
    by (simp add: admitted_Cons)
qed

lemma minute_count_after:
  assumes "\<forall>c \<in> set cs. time1 c div 60 = B"
  shows "count_of (usage_minute (ledger_after s d m db cs) (B, s))
          = count_of (usage_minute db (B, s)) + int (admitted (run_attempts s d m db cs))"
  using assms
proof (induction cs arbitrary: db)
  case Nil
  then show ?case by simp
next
  case (Cons c cs)
  then have B: "time1 c div 60 = B" and rest: "\<forall>c \<in> set cs. time1 c div 60 = B"
    by simp_all
  show ?case
    using Cons.IH[OF rest, of "snd (consume_limit db c s d m)"] step_minute_count[OF B, of db s d m]
    by (simp add: admitted_Cons)
qed

lemma day_count_bounded:
  assumes "0 < d" "\<forall>c \<in> set cs. utc_day (dt_now c) = D" "count_of (usage_day db (D, s)) \<le> d"
  shows "count_of (usage_day (ledger_after s d m db cs) (D, s)) \<le> d"
  using assms
proof (induction cs arbitrary: db)
  case Nil
  then show ?case by simp
next
  case (Cons c cs)
  then have D: "utc_day (dt_now c) = D" and rest: "\<forall>c \<in> set cs. utc_day (dt_now c) = D"
    by simp_all
  have "count_of (usage_day (snd (consume_limit db c s d m)) (D, s)) \<le> d"
    using step_day_count[OF D, of db s d m] Cons.prems(1,3) D
    by (auto simp add: consume_limit_unfold day_count_def split: if_splits)
  from Cons.IH[OF Cons.prems(1) rest this] show ?case by simp
qed

lemma minute_count_bounded:
  assumes "0 < m" "\<forall>c \<in> set cs. time1 c div 60 = B" "count_of (usage_minute db (B, s)) \<le> m"
  shows "count_of (usage_minute (ledger_after s d m db cs) (B, s)) \<le> m"
  using assms
proof (induction cs arbitrary: db)
  case Nil
  then show ?case by simp
next
  case (Cons c cs)
  then have B: "time1 c div 60 = B" and rest: "\<forall>c \<in> set cs. time1 c div 60 = B"
    by simp_all
  have "count_of (usage_minute (snd (consume_limit db c s d m)) (B, s)) \<le> m"
    using step_minute_count[OF B, of db s d m] Cons.prems(1,3) B
    by (auto simp add: consume_limit_unfold minute_count_def split: if_splits)
  from Cons.IH[OF Cons.prems(1) rest this] show ?case by simp
qed

lemma admitted_append: "admitted (xs @ ys) = admitted xs + admitted ys"
  by (simp add: admitted_def)

lemma day_count_at:
  assumes "\<forall>c \<in> set cs. utc_day (dt_now c) = D" "usage_day db0 (D, s) = None" "i < length cs"
  shows "day_count (ledger_after s d m db0 (take i cs)) (cs ! i) s
          = int (admitted (take i (run_attempts s d m db0 cs)))"
proof -
  from assms(1,3) have D: "utc_day (dt_now (cs ! i)) = D" by simp
  from assms(1) have "\<forall>c \<in> set (take i cs). utc_day (dt_now c) = D"
    by (meson in_set_takeD)
  from day_count_after[OF this, of s d m db0] assms(2) D show ?thesis
    by (simp add: day_count_def take_run_attempts count_of_def)
qed

lemma minute_count_at:
  assumes "\<forall>c \<in> set cs. time1 c div 60 = B" "usage_minute db0 (B, s) = None" "i < length cs"
  shows "minute_count (ledger_after s d m db0 (take i cs)) (cs ! i) s
          = int (admitted (take i (run_attempts s d m db0 cs)))"
proof -
  from assms(1,3) have B: "time1 (cs ! i) div 60 = B" by simp
  from assms(1) have "\<forall>c \<in> set (take i cs). time1 c div 60 = B"
    by (meson in_set_takeD)
  from minute_count_after[OF this, of s d m db0] assms(2) B show ?thesis
    by (simp add: minute_count_def take_run_attempts count_of_def)
qed

lemma daily_denial:
  assumes "0 < N" "N \<le> day_count db c s"
  shows "\<not> ok_of (fst (consume_limit db c s N m))"
    and "retry_after_of (fst (consume_limit db c s N m)) = max 60 (seconds_until_midnight (dt_now c))"
  using assms by (simp_all add: consume_limit_unfold)

lemma minute_denial:
  assumes "0 < M" "M \<le> minute_count db c s"
  shows "\<not> ok_of (fst (consume_limit db c s d M))"
    and "\<not> (0 < d \<and> d \<le> day_count db c s) \<Longrightarrow>
           retry_after_of (fst (consume_limit db c s d M)) = max 1 (60 - time2 c mod 60)"
  using assms by (auto simp add: consume_limit_unfold)

lemma minute_retry_range: "1 \<le> max 1 (60 - (t::int) mod 60) \<and> max 1 (60 - t mod 60) \<le> 60"
proof -
  have "0 \<le> t mod 60" "t mod 60 < 60" by simp_all
  then show ?thesis by linarith
qed

lemma admitted_take_Suc:
  assumes "i < length cs"
  shows "admitted (take (Suc i) (run_attempts s d m db0 cs))
          = admitted (take i (run_attempts s d m db0 cs))
            + (if ok_of (run_attempts s d m db0 cs ! i) then 1 else 0)"
  using assms by (simp add: take_Suc_conv_app_nth admitted_append admitted_Cons)

lemma admitted_le_daily:
  assumes "0 < N" "\<forall>c \<in> set cs. utc_day (dt_now c) = D" "usage_day db0 (D, s) = None"
  shows "admitted (run_attempts s N m db0 cs) \<le> nat N"
proof -
  from assms have "count_of (usage_day db0 (D, s)) \<le> N" by (simp add: count_of_def)
  from day_count_bounded[OF assms(1,2) this, of m] day_count_after[OF assms(2), of s N m db0] assms(3)
  show ?thesis by (simp add: count_of_def)
qed

lemma admitted_le_minute:
  assumes "0 < M" "\<forall>c \<in> set cs. time1 c div 60 = B" "usage_minute db0 (B, s) = None"
  shows "admitted (run_attempts s d M db0 cs) \<le> nat M"
proof -
  from assms have "count_of (usage_minute db0 (B, s)) \<le> M" by (simp add: count_of_def)
  from minute_count_bounded[OF assms(1,2) this, of d] minute_count_after[OF assms(2), of s d M db0] assms(3)
  show ?thesis by (simp add: count_of_def)
qed

lemma first_N_admitted:
  assumes "0 < N" "\<forall>c \<in> set cs. utc_day (dt_now c) = D" "usage_day db0 (D, s) = None"
    and pass: "\<forall>i<length cs. \<not> (0 < m \<and> m \<le> minute_count (ledger_after s N m db0 (take i cs)) (cs ! i) s)"
  shows "i \<le> length cs \<Longrightarrow> admitted (take i (run_attempts s N m db0 cs)) = min i (nat N)"
    and "i < length cs \<Longrightarrow> ok_of (run_attempts s N m db0 cs ! i) \<longleftrightarrow> i < nat N"
proof -
  have step: "ok_of (run_attempts s N m db0 cs ! j)
               \<longleftrightarrow> admitted (take j (run_attempts s N m db0 cs)) < nat N" if "j < length cs" for j
  proof -
    from pass that
    have p: "\<not> (0 < m \<and> m \<le> minute_count (ledger_after s N m db0 (take j cs)) (cs ! j) s)"
      by blast
    have "ok_of (run_attempts s N m db0 cs ! j)
           \<longleftrightarrow> \<not> N \<le> day_count (ledger_after s N m db0 (take j cs)) (cs ! j) s"
      using p assms(1) by (auto simp add: nth_run_attempts[OF that] consume_limit_unfold)
    also have "\<dots> \<longleftrightarrow> admitted (take j (run_attempts s N m db0 cs)) < nat N"
      using assms(1) by (simp add: day_count_at[OF assms(2,3) that]) linarith
    finally show ?thesis .
  qed
  have count: "j \<le> length cs \<Longrightarrow> admitted (take j (run_attempts s N m db0 cs)) = min j (nat N)" for j
  proof (induction j)
    case 0
    then show ?case by simp
  next
    case (Suc j)
    then have j: "j < length cs" by simp
    with Suc have IH: "admitted (take j (run_attempts s N m db0 cs)) = min j (nat N)" by simp
    show ?case
      using step[OF j] IH by (simp add: admitted_take_Suc[OF j] min_def)
  qed
  show "i \<le> length cs \<Longrightarrow> admitted (take i (run_attempts s N m db0 cs)) = min i (nat N)"
    by (rule count)
  show "i < length cs \<Longrightarrow> ok_of (run_attempts s N m db0 cs ! i) \<longleftrightarrow> i < nat N"
    using step[of i] count[of i] by (simp add: min_def)
qed

subsection \<open>The selector loop and its evaluations\<close>

lemma consume_limit_at_calls:
  "calls (snd (consume_limit_at clk w scope rpd rpm)) = calls w @ [scope]"
  by (simp add: consume_limit_at_def)

lemma denied_retry_positive:
  "\<not> ok_of (fst (consume_limit db c s d m)) \<Longrightarrow> 1 \<le> retry_after_of (fst (consume_limit db c s d m))"
  by (auto simp add: consume_limit_unfold split: if_splits)

lemma denied_retry_positive_at:
  "\<not> ok_of (fst (consume_limit_at clk w s d m)) \<Longrightarrow> 1 \<le> retry_after_of (fst (consume_limit_at clk w s d m))"
  by (simp add: consume_limit_at_def denied_retry_positive)

lemma attempts_skip:
  "model \<notin> allowed \<Longrightarrow>
     attempts clk ml allowed (model # rest) w = attempts clk ml allowed rest w"
  by simp

lemma attempts_try:
  "model \<in> allowed \<Longrightarrow>
     attempts clk ml allowed (model # rest) w =
       (model, consume_limit_at clk w (''gemini:'' @ model) (fst (limits_get ml model)) (snd (limits_get ml model)))
       # (if ok_of (fst (consume_limit_at clk w (''gemini:'' @ model) (fst (limits_get ml model)) (snd (limits_get ml model))))
          then []
          else attempts clk ml allowed rest
                 (snd (consume_limit_at clk w (''gemini:'' @ model) (fst (limits_get ml model)) (snd (limits_get ml model)))))"
  by (simp split: prod.splits)

lemma pick_loop_skip:
  "model \<notin> allowed \<Longrightarrow>
     pick_loop clk ml allowed (model # rest) lh mx w = pick_loop clk ml allowed rest lh mx w"
  by simp

lemma pick_loop_try:
  "model \<in> allowed \<Longrightarrow>
     pick_loop clk ml allowed (model # rest) lh mx w =
       (let r = consume_limit_at clk w (''gemini:'' @ model) (fst (limits_get ml model)) (snd (limits_get ml model))
        in if ok_of (fst r) then ((Some model, Some (headers_of (fst r)), 0), snd r)
           else pick_loop clk ml allowed rest (Some (headers_of (fst r))) (max mx (retry_after_of (fst r))) (snd r))"
  by (simp add: Let_def split: prod.splits)

lemma pick_loop_attempts:
  "pick_loop clk ml allowed ms lh mx w =
     (if attempts clk ml allowed ms w \<noteq> []
         \<and> ok_of (decision_of (last (attempts clk ml allowed ms w)))
      then ((Some (model_of (last (attempts clk ml allowed ms w))),
             Some (headers_of (decision_of (last (attempts clk ml allowed ms w)))), 0),
            world_of (last (attempts clk ml allowed ms w)))
      else ((None,
             (if attempts clk ml allowed ms w = [] then lh
              else Some (headers_of (decision_of (last (attempts clk ml allowed ms w))))),
             (if fold max (map (\<lambda>a. retry_after_of (decision_of a)) (attempts clk ml allowed ms w)) mx = 0
              then 60
              else fold max (map (\<lambda>a. retry_after_of (decision_of a)) (attempts clk ml allowed ms w)) mx)),
            (if attempts clk ml allowed ms w = [] then w
             else world_of (last (attempts clk ml allowed ms w)))))"
proof (induction ms arbitrary: lh mx w)
  case Nil
  then show ?case by simp
next
  case (Cons model rest)
  show ?case
  proof (cases "model \<in> allowed")
    case False
    show ?thesis
      unfolding pick_loop_skip[OF False] attempts_skip[OF False] by (rule Cons.IH)
  next
    case True
    define r where "r = consume_limit_at clk w (''gemini:'' @ model) (fst (limits_get ml model)) (snd (limits_get ml model))"
    show ?thesis
    proof (cases "ok_of (fst r)")
      case ok: True
      then show ?thesis
        unfolding pick_loop_try[OF True] attempts_try[OF True] r_def[symmetric]
        by (simp add: Let_def)
    next
      case no: False
      have pl: "pick_loop clk ml allowed (model # rest) lh mx w
              = pick_loop clk ml allowed rest (Some (headers_of (fst r))) (max mx (retry_after_of (fst r))) (snd r)"
        unfolding pick_loop_try[OF True] r_def[symmetric] using no by (simp add: Let_def)
      have at: "attempts clk ml allowed (model # rest) w
              = (model, r) # attempts clk ml allowed rest (snd r)"
        unfolding attempts_try[OF True] r_def[symmetric] using no by simp
      show ?thesis
        unfolding pl at
        by (subst Cons.IH) (simp add: max.commute no)
    qed
  qed
qed

lemma attempts_models:
  "map model_of (attempts clk ml allowed ms w)
     = take (length (attempts clk ml allowed ms w)) (filter (\<lambda>m. m \<in> allowed) ms)"
proof (induction ms arbitrary: w)
  case Nil
  then show ?case by simp
next
  case (Cons model rest)
  show ?case
  proof (cases "model \<in> allowed")
    case False
    show ?thesis unfolding attempts_skip[OF False] using False Cons.IH by simp
  next
    case True
    show ?thesis unfolding attempts_try[OF True] using True Cons.IH by simp
  qed
qed

lemma attempts_exhausted:
  assumes "attempts clk ml allowed ms w = []
           \<or> \<not> ok_of (decision_of (last (attempts clk ml allowed ms w)))"
  shows "map model_of (attempts clk ml allowed ms w) = filter (\<lambda>m. m \<in> allowed) ms"
  using assms
proof (induction ms arbitrary: w)
  case Nil
  then show ?case by simp
next
  case (Cons model rest)
  show ?case
  proof (cases "model \<in> allowed")
    case False
    from Cons.prems show ?thesis
      unfolding attempts_skip[OF False] using False Cons.IH by simp
  next
    case True
    define r where "r = consume_limit_at clk w (''gemini:'' @ model) (fst (limits_get ml model)) (snd (limits_get ml model))"
    show ?thesis
    proof (cases "ok_of (fst r)")
      case ok: True
      with Cons.prems show ?thesis
        unfolding attempts_try[OF True] r_def[symmetric] by simp
    next
      case no: False
      have at: "attempts clk ml allowed (model # rest) w
              = (model, r) # attempts clk ml allowed rest (snd r)"
        unfolding attempts_try[OF True] r_def[symmetric] using no by simp
      from Cons.prems have "attempts clk ml allowed rest (snd r) = []
           \<or> \<not> ok_of (decision_of (last (attempts clk ml allowed rest (snd r))))"
        unfolding at by (simp split: if_splits)
      from Cons.IH[OF this] show ?thesis unfolding at using True by simp
    qed
  qed
qed

lemma attempts_before_last_denied:
  "a \<in> set (butlast (attempts clk ml allowed ms w)) \<Longrightarrow> \<not> ok_of (decision_of a)"
proof (induction ms arbitrary: w)
  case Nil
  then show ?case by simp
next
  case (Cons model rest)
  show ?case
  proof (cases "model \<in> allowed")
    case False
    from Cons.prems show ?thesis
      unfolding attempts_skip[OF False] by (rule Cons.IH)
  next
    case True
    from Cons.prems show ?thesis
      unfolding attempts_try[OF True] using Cons.IH
      by (auto split: if_splits)
  qed
qed

lemma attempts_step:
  "i < length (attempts clk ml allowed ms w) \<Longrightarrow>
     snd (attempts clk ml allowed ms w ! i)
       = consume_limit_at clk
           (if i = 0 then w else world_of (attempts clk ml allowed ms w ! (i - 1)))
           (''gemini:'' @ model_of (attempts clk ml allowed ms w ! i))
           (fst (limits_get ml (model_of (attempts clk ml allowed ms w ! i))))
           (snd (limits_get ml (model_of (attempts clk ml allowed ms w ! i))))"
proof (induction ms arbitrary: w i)
  case Nil
  then show ?case by simp
next
  case (Cons model rest)
  show ?case
  proof (cases "model \<in> allowed")
    case False
    from Cons.prems show ?thesis
      unfolding attempts_skip[OF False] by (rule Cons.IH)
  next
    case True
    define r where "r = consume_limit_at clk w (''gemini:'' @ model) (fst (limits_get ml model)) (snd (limits_get ml model))"
    show ?thesis
    proof (cases i)
      case 0
      then show ?thesis unfolding attempts_try[OF True] by simp
    next
      case (Suc j)
      with Cons.prems have no: "\<not> ok_of (fst r)"
        unfolding attempts_try[OF True] r_def by (auto split: if_splits)
      have at: "attempts clk ml allowed (model # rest) w
              = (model, r) # attempts clk ml allowed rest (snd r)"
        unfolding attempts_try[OF True] r_def[symmetric] using no by simp
      from Cons.prems Suc have j: "j < length (attempts clk ml allowed rest (snd r))"
        unfolding at by simp
      from Cons.IH[OF j] show ?thesis
        unfolding at Suc by (cases j) simp_all
    qed
  qed
qed

lemma attempts_calls:
  "calls (if attempts clk ml allowed ms w = [] then w
          else world_of (last (attempts clk ml allowed ms w)))
     = calls w @ map (\<lambda>a. ''gemini:'' @ model_of a) (attempts clk ml allowed ms w)"
proof (induction ms arbitrary: w)
  case Nil
  then show ?case by simp
next
  case (Cons model rest)
  show ?case
  proof (cases "model \<in> allowed")
    case False
    show ?thesis unfolding attempts_skip[OF False] by (rule Cons.IH)
  next
    case True
    define r where "r = consume_limit_at clk w (''gemini:'' @ model) (fst (limits_get ml model)) (snd (limits_get ml model))"
    have c: "calls (snd r) = calls w @ [''gemini:'' @ model]"
      unfolding r_def by (rule consume_limit_at_calls)
    show ?thesis
    proof (cases "ok_of (fst r)")
      case ok: True
      then show ?thesis
        unfolding attempts_try[OF True] r_def[symmetric] using c by simp
    next
      case no: False
      have at: "attempts clk ml allowed (model # rest) w
              = (model, r) # attempts clk ml allowed rest (snd r)"
        unfolding attempts_try[OF True] r_def[symmetric] using no by simp
      show ?thesis
      proof (cases "attempts clk ml allowed rest (snd r) = []")
        case True
        then show ?thesis unfolding at using c by simp
      next
        case False
        with Cons.IH[of "snd r"] c show ?thesis unfolding at by simp
      qed
    qed
  qed
qed

lemma fold_max_Max:
  fixes rs :: "int list"
  shows "fold max rs mx = Max (insert mx (set rs))"
proof (induction rs arbitrary: mx)
  case Nil
  then show ?case by simp
next
  case (Cons r rs)
  have "Max (insert mx (insert r (set rs))) = max mx (Max (insert r (set rs)))"
    by (rule Max_insert) simp_all
  also have "\<dots> = Max (insert (max r mx) (set rs))"
  proof (cases "set rs = {}")
    case True
    then show ?thesis by (simp add: max.commute)
  next
    case False
    then show ?thesis by (simp add: max.assoc max.commute max.left_commute)
  qed
  finally show ?case using Cons.IH[of "max r mx"] by simp
qed

lemma Max_insert_zero:
  fixes S :: "int set"
  assumes "finite S" "S \<noteq> {}" "\<forall>x \<in> S. 1 \<le> x"
  shows "Max (insert 0 S) = Max S" "1 \<le> Max S"
proof -
  from assms have "Max S \<in> S" by simp
  with assms(3) show "1 \<le> Max S" by blast
  then show "Max (insert 0 S) = Max S" using assms(1,2) by simp
qed

lemma attempts_denied_retry:
  assumes "a \<in> set (attempts clk ml allowed ms w)" "\<not> ok_of (decision_of a)"
  shows "1 \<le> retry_after_of (decision_of a)"
proof -
  from assms(1) obtain i where i: "i < length (attempts clk ml allowed ms w)"
    and a: "a = attempts clk ml allowed ms w ! i"
    by (auto simp add: in_set_conv_nth)
  from attempts_step[OF i] assms(2) show ?thesis
    unfolding a by (metis denied_retry_positive_at)
qed

lemma exhausted_max:
  assumes "attempts clk ml allowed ms w \<noteq> []"
    and "\<not> ok_of (decision_of (last (attempts clk ml allowed ms w)))"
  shows "Max (insert 0 (set (map (\<lambda>a. retry_after_of (decision_of a)) (attempts clk ml allowed ms w))))
          = Max (set (map (\<lambda>a. retry_after_of (decision_of a)) (attempts clk ml allowed ms w)))"
    and "1 \<le> Max (set (map (\<lambda>a. retry_after_of (decision_of a)) (attempts clk ml allowed ms w)))"
proof -
  let ?tr = "attempts clk ml allowed ms w"
  have denied: "\<not> ok_of (decision_of a)" if "a \<in> set ?tr" for a
  proof (cases "a \<in> set (butlast ?tr)")
    case True
    then show ?thesis by (rule attempts_before_last_denied)
  next
    case False
    with that assms(1) have "a = last ?tr"
      by (metis append_butlast_last_id rotate1.simps(2) set_ConsD set_rotate1)
    with assms(2) show ?thesis by simp
  qed
  have pos: "\<forall>x \<in> set (map (\<lambda>a. retry_after_of (decision_of a)) ?tr). 1 \<le> x"
    using denied attempts_denied_retry by auto
  have ne: "set (map (\<lambda>a. retry_after_of (decision_of a)) ?tr) \<noteq> {}"
    using assms(1) by simp
  show "Max (insert 0 (set (map (\<lambda>a. retry_after_of (decision_of a)) ?tr)))
          = Max (set (map (\<lambda>a. retry_after_of (decision_of a)) ?tr))"
    by (rule Max_insert_zero(1)[OF _ ne pos]) simp
  show "1 \<le> Max (set (map (\<lambda>a. retry_after_of (decision_of a)) ?tr))"
    by (rule Max_insert_zero(2)[OF _ ne pos]) simp
qed

lemma pick_model_admitted:
  assumes "attempts clk (parse_model_limits jl ios st env) allowed preferred w \<noteq> []"
    and "ok_of (decision_of (last (attempts clk (parse_model_limits jl ios st env) allowed preferred w)))"
  shows "pick_model jl ios st env clk preferred allowed w
     = ((Some (model_of (last (attempts clk (parse_model_limits jl ios st env) allowed preferred w))),
         Some (headers_of (decision_of (last (attempts clk (parse_model_limits jl ios st env) allowed preferred w)))),
         0),
        world_of (last (attempts clk (parse_model_limits jl ios st env) allowed preferred w)))"
  unfolding pick_model_def by (subst pick_loop_attempts) (simp add: assms)

lemma pick_model_exhausted:
  assumes "attempts clk (parse_model_limits jl ios st env) allowed preferred w \<noteq> []"
    and "\<not> ok_of (decision_of (last (attempts clk (parse_model_limits jl ios st env) allowed preferred w)))"
  shows "pick_model jl ios st env clk preferred allowed w
     = ((None,
         Some (headers_of (decision_of (last (attempts clk (parse_model_limits jl ios st env) allowed preferred w)))),
         Max (set (map (\<lambda>a. retry_after_of (decision_of a))
                (attempts clk (parse_model_limits jl ios st env) allowed preferred w)))),
        world_of (last (attempts clk (parse_model_limits jl ios st env) allowed preferred w)))"
  unfolding pick_model_def
  using exhausted_max[OF assms]
  by (subst pick_loop_attempts) (simp add: assms fold_max_Max)

lemma pick_model_none_attempted:
  assumes "attempts clk (parse_model_limits jl ios st env) allowed preferred w = []"
  shows "pick_model jl ios st env clk preferred allowed w = ((None, None, 60), w)"
  unfolding pick_model_def by (subst pick_loop_attempts) (simp add: assms)

lemma pick_model_world:
  "snd (pick_model jl ios st env clk preferred allowed w)
     = (if attempts clk (parse_model_limits jl ios st env) allowed preferred w = [] then w
        else world_of (last (attempts clk (parse_model_limits jl ios st env) allowed preferred w)))"
  unfolding pick_model_def by (subst pick_loop_attempts) simp

lemma pick_model_retry:
  assumes "fst (fst (pick_model jl ios st env clk preferred allowed w)) = None"
  shows "snd (snd (fst (pick_model jl ios st env clk preferred allowed w)))
     = (if Max (insert 0 (set (map (\<lambda>a. retry_after_of (decision_of a))
              (attempts clk (parse_model_limits jl ios st env) allowed preferred w)))) = 0
        then 60
        else Max (insert 0 (set (map (\<lambda>a. retry_after_of (decision_of a))
              (attempts clk (parse_model_limits jl ios st env) allowed preferred w)))))"
proof -
  let ?tr = "attempts clk (parse_model_limits jl ios st env) allowed preferred w"
  let ?rs = "map (\<lambda>a. retry_after_of (decision_of a)) ?tr"
  have ex: "\<not> (?tr \<noteq> [] \<and> ok_of (decision_of (last ?tr)))"
  proof
    assume "?tr \<noteq> [] \<and> ok_of (decision_of (last ?tr))"
    then have "fst (fst (pick_model jl ios st env clk preferred allowed w)) \<noteq> None"
      by (simp add: pick_model_admitted)
    with assms show False by simp
  qed
  have "snd (snd (fst (pick_model jl ios st env clk preferred allowed w)))
          = (if fold max ?rs 0 = 0 then 60 else fold max ?rs 0)"
    unfolding pick_model_def using ex by (subst pick_loop_attempts) auto
  then show ?thesis unfolding fold_max_Max .
qed

subsection \<open>The concrete scenarios, evaluated\<close>

lemma counts_empty:
  "day_count empty_ledger c s = 0" "minute_count empty_ledger c s = 0"
  by (simp_all add: day_count_def minute_count_def empty_ledger_def count_of_def)

lemma clock0_values:
  "seconds_until_midnight (dt_now clock0) = 6400" "time2 clock0 mod 60 = 20"
  "utc_day (dt_now clock0) = 19675" "time1 clock0 div 60 = 28333333"
  by (simp_all add: clock0_def seconds_until_midnight_def utc_day_def us_per_day_def)

lemma first_admitted:
  "consume_limit empty_ledger clock0 ''gemini:X'' 1 1
     = ((True, 0, rate_headers ''gemini:X'' 1 1 1 1), ledger1)"
  by (simp add: ledger1_def consume_limit_unfold counts_empty)

lemma counts_ledger1:
  "day_count ledger1 clock0 ''gemini:X'' = 1" "minute_count ledger1 clock0 ''gemini:X'' = 1"
  unfolding ledger1_def
  using consume_allowed_counts[of empty_ledger clock0 "''gemini:X''" 1 1]
  by (simp_all add: consume_limit_unfold counts_empty)

lemma second_denied:
  "consume_limit ledger1 clock0 ''gemini:X'' 1 1
     = ((False, 6400, rate_headers ''gemini:X'' 1 1 1 1), ledger1)"
  by (simp add: consume_limit_unfold counts_ledger1 clock0_values)

lemma py_str_small:
  "py_str 0 = ''0''" "py_str 1 = ''1''" "py_str 2 = ''2''" "py_str 3 = ''3''" "py_str 4 = ''4''"
  "py_str 5 = ''5''" "py_str 6 = ''6''" "py_str 20 = ''20''"
  by (simp_all add: py_str_def str_nat.simps digit_char_def)

lemmas eval_rules = consume_limit_unfold day_count_def minute_count_def upsert_increment_def
        delete_minutes_before_def count_of_def empty_ledger_def clock0_values

subsection \<open>Denied evaluations change nothing, allowed ones count once in both windows\<close>

text \<open>
  Claim C3. A denied evaluation returns the ledger as it was, so the day counter and the
  minute counter of the scope are unchanged and the same evaluation repeated gives the same
  decision and the same counts; an allowed evaluation adds exactly 1 to the day counter and
  exactly 1 to the minute counter of the scope, both together.
\<close>

theorem C3_no_partial_increment:
  assumes "consume_limit db c s d m = ((ok, ra, h), db')"
  shows "(\<not> ok \<longrightarrow> db' = db \<and> day_count db' c s = day_count db c s
                  \<and> minute_count db' c s = minute_count db c s
                  \<and> consume_limit db' c s d m = ((ok, ra, h), db'))
       \<and> (ok \<longrightarrow> day_count db' c s = day_count db c s + 1
                  \<and> minute_count db' c s = minute_count db c s + 1)"
proof (cases ok)
  case True
  with assms have "fst (fst (consume_limit db c s d m))" by simp
  from consume_allowed_counts[OF this] assms True show ?thesis by simp
next
  case False
  with assms have "\<not> fst (fst (consume_limit db c s d m))" by simp
  from consume_denied_ledger[OF this] assms False show ?thesis by simp
qed

theorem C3_no_partial_increment_witness:
  "consume_limit empty_ledger clock0 ''gemini:X'' 1 1
     = ((True, 0, rate_headers ''gemini:X'' 1 1 1 1), ledger1)
   \<and> day_count ledger1 clock0 ''gemini:X'' = day_count empty_ledger clock0 ''gemini:X'' + 1
   \<and> minute_count ledger1 clock0 ''gemini:X'' = minute_count empty_ledger clock0 ''gemini:X'' + 1
   \<and> consume_limit ledger1 clock0 ''gemini:X'' 1 1
     = ((False, 6400, rate_headers ''gemini:X'' 1 1 1 1), ledger1)"
proof -
  from C3_no_partial_increment[OF first_admitted]
  have a: "day_count ledger1 clock0 ''gemini:X'' = day_count empty_ledger clock0 ''gemini:X'' + 1
   \<and> minute_count ledger1 clock0 ''gemini:X'' = minute_count empty_ledger clock0 ''gemini:X'' + 1"
    by blast
  from C3_no_partial_increment[OF second_denied]
  have b: "consume_limit ledger1 clock0 ''gemini:X'' 1 1
     = ((False, 6400, rate_headers ''gemini:X'' 1 1 1 1), ledger1)"
    by blast
  from a b first_admitted show ?thesis by blast
qed

subsection \<open>Diagnostic headers\<close>

lemma six_attempts_scenario:
  "map (\<lambda>d. (ok_of d, map_of (headers_of d) ''X-RateLimit-RPM-Used''))
       (run_attempts ''gemini:X'' 20 5 empty_ledger [clock0, clock0, clock0, clock0, clock0, clock0])
     = [(True, Some ''1''), (True, Some ''2''), (True, Some ''3''), (True, Some ''4''),
        (True, Some ''5''), (False, Some ''5'')]
   \<and> retry_after_of (run_attempts ''gemini:X'' 20 5 empty_ledger
        [clock0, clock0, clock0, clock0, clock0, clock0] ! 5) = 40"
  by (simp add: consume_limit_unfold day_count_def minute_count_def upsert_increment_def
        delete_minutes_before_def count_of_def empty_ledger_def clock0_values rate_headers_def
        py_str_small)

text \<open>
  Claim C7. The headers of every decision carry the scope name and both configured limits;
  the two used counts are the counts read before the increment when the decision denies
  and those counts plus one when it allows. With limits (20, 5) on an empty ledger, six
  attempts in one minute report RPM-Used 1, 2, 3, 4, 5 on the five admissions and 5 on the
  sixth, which is denied.
\<close>

theorem C7_diagnostics:
  "(consume_limit db c s d m = ((ok, ra, h), db') \<longrightarrow>
      h = [(''X-RateLimit-Scope'', s),
           (''X-RateLimit-RPD-Limit'', py_str d),
           (''X-RateLimit-RPD-Used'', py_str (if ok then day_count db c s + 1 else day_count db c s)),
           (''X-RateLimit-RPM-Limit'', py_str m),
           (''X-RateLimit-RPM-Used'', py_str (if ok then minute_count db c s + 1 else minute_count db c s))])
   \<and> map (\<lambda>d. (ok_of d, map_of (headers_of d) ''X-RateLimit-RPM-Used''))
       (run_attempts ''gemini:X'' 20 5 empty_ledger [clock0, clock0, clock0, clock0, clock0, clock0])
     = [(True, Some ''1''), (True, Some ''2''), (True, Some ''3''), (True, Some ''4''),
        (True, Some ''5''), (False, Some ''5'')]
   \<and> retry_after_of (run_attempts ''gemini:X'' 20 5 empty_ledger
        [clock0, clock0, clock0, clock0, clock0, clock0] ! 5) = 40"
proof -
  have "consume_limit db c s d m = ((ok, ra, h), db') \<longrightarrow>
      h = [(''X-RateLimit-Scope'', s),
           (''X-RateLimit-RPD-Limit'', py_str d),
           (''X-RateLimit-RPD-Used'', py_str (if ok then day_count db c s + 1 else day_count db c s)),
           (''X-RateLimit-RPM-Limit'', py_str m),
           (''X-RateLimit-RPM-Used'', py_str (if ok then minute_count db c s + 1 else minute_count db c s))]"
    by (auto simp add: consume_limit_unfold rate_headers_def split: if_splits)
  with six_attempts_scenario show ?thesis by blast
qed

theorem C7_diagnostics_witness:
  "consume_limit empty_ledger clock0 ''gemini:X'' 1 1
     = ((True, 0, rate_headers ''gemini:X'' 1 1 1 1), ledger1)
   \<and> rate_headers ''gemini:X'' 1 1 1 1 =
       [(''X-RateLimit-Scope'', ''gemini:X''), (''X-RateLimit-RPD-Limit'', ''1''),
        (''X-RateLimit-RPD-Used'', ''1''), (''X-RateLimit-RPM-Limit'', ''1''),
        (''X-RateLimit-RPM-Used'', ''1'')]"
  using C7_diagnostics[of empty_ledger clock0 "''gemini:X''" 1 1 True 0
          "rate_headers ''gemini:X'' 1 1 1 1" ledger1] first_admitted
  by (simp add: counts_empty py_str_small)

subsection \<open>A limit of zero\<close>

text \<open>
  Claim C8. With a daily limit of 0 the decision depends on the minute check alone, with a
  minute limit of 0 on the daily check alone, and with both 0 every evaluation is allowed;
  a denial is then always on the other dimension's account. Every allowed evaluation
  still adds 1 to both counters.
\<close>

theorem C8_zero_limit_disables:
  assumes "consume_limit db c s d m = ((ok, ra, h), db')"
  shows "(d = 0 \<longrightarrow> (ok \<longleftrightarrow> \<not> (m > 0 \<and> minute_count db c s \<ge> m))
                    \<and> (\<not> ok \<longrightarrow> ra = max 1 (60 - time2 c mod 60)))
       \<and> (m = 0 \<longrightarrow> (ok \<longleftrightarrow> \<not> (d > 0 \<and> day_count db c s \<ge> d))
                    \<and> (\<not> ok \<longrightarrow> ra = max 60 (seconds_until_midnight (dt_now c))))
       \<and> (d = 0 \<and> m = 0 \<longrightarrow> ok)
       \<and> (ok \<longrightarrow> day_count db' c s = day_count db c s + 1
                  \<and> minute_count db' c s = minute_count db c s + 1)"
proof -
  have counts: "ok \<longrightarrow> day_count db' c s = day_count db c s + 1
                  \<and> minute_count db' c s = minute_count db c s + 1"
    using consume_allowed_counts[of db c s d m] assms by simp
  have dec: "(d = 0 \<longrightarrow> (ok \<longleftrightarrow> \<not> (m > 0 \<and> minute_count db c s \<ge> m))
                    \<and> (\<not> ok \<longrightarrow> ra = max 1 (60 - time2 c mod 60)))
       \<and> (m = 0 \<longrightarrow> (ok \<longleftrightarrow> \<not> (d > 0 \<and> day_count db c s \<ge> d))
                    \<and> (\<not> ok \<longrightarrow> ra = max 60 (seconds_until_midnight (dt_now c))))
       \<and> (d = 0 \<and> m = 0 \<longrightarrow> ok)"
    using assms by (auto simp add: consume_limit_unfold split: if_splits)
  from counts dec show ?thesis by blast
qed

theorem C8_zero_limit_disables_witness:
  "\<not> ok_of (fst (consume_limit ledger1 clock0 ''gemini:X'' 0 1))
   \<and> retry_after_of (fst (consume_limit ledger1 clock0 ''gemini:X'' 0 1)) = 40
   \<and> \<not> ok_of (fst (consume_limit ledger1 clock0 ''gemini:X'' 1 0))
   \<and> retry_after_of (fst (consume_limit ledger1 clock0 ''gemini:X'' 1 0)) = 6400
   \<and> ok_of (fst (consume_limit ledger1 clock0 ''gemini:X'' 0 0))
   \<and> day_count (snd (consume_limit ledger1 clock0 ''gemini:X'' 0 0)) clock0 ''gemini:X'' = 2
   \<and> minute_count (snd (consume_limit ledger1 clock0 ''gemini:X'' 0 0)) clock0 ''gemini:X'' = 2"
proof -
  have e: "\<And>d m. consume_limit ledger1 clock0 ''gemini:X'' d m
      = ((ok_of (fst (consume_limit ledger1 clock0 ''gemini:X'' d m)),
          retry_after_of (fst (consume_limit ledger1 clock0 ''gemini:X'' d m)),
          headers_of (fst (consume_limit ledger1 clock0 ''gemini:X'' d m))),
         snd (consume_limit ledger1 clock0 ''gemini:X'' d m))"
    by simp
  from C8_zero_limit_disables[OF e[of 0 1]]
  have a: "\<not> ok_of (fst (consume_limit ledger1 clock0 ''gemini:X'' 0 1))
   \<and> retry_after_of (fst (consume_limit ledger1 clock0 ''gemini:X'' 0 1)) = 40"
    by (simp add: counts_ledger1 clock0_values)
  from C8_zero_limit_disables[OF e[of 1 0]]
  have b: "\<not> ok_of (fst (consume_limit ledger1 clock0 ''gemini:X'' 1 0))
   \<and> retry_after_of (fst (consume_limit ledger1 clock0 ''gemini:X'' 1 0)) = 6400"
    by (simp add: counts_ledger1 clock0_values)
  from C8_zero_limit_disables[OF e[of 0 0]]
  have c: "ok_of (fst (consume_limit ledger1 clock0 ''gemini:X'' 0 0))
   \<and> day_count (snd (consume_limit ledger1 clock0 ''gemini:X'' 0 0)) clock0 ''gemini:X'' = 2
   \<and> minute_count (snd (consume_limit ledger1 clock0 ''gemini:X'' 0 0)) clock0 ''gemini:X'' = 2"
    by (simp add: counts_ledger1)
  from a b c show ?thesis by blast
qed

subsection \<open>The daily limit\<close>

text \<open>
  Claim C1, as stated, fails where the minute limit binds before the daily one: with
  limits (2, 1) and three attempts in one minute of one day, only the first attempt is
  admitted, the second (one of the first N = 2) is denied, and the third (attempt N + 1) is
  denied by the minute check with a retry of 40 seconds, below 60.
\<close>

theorem C1_counterexample:
  "map (\<lambda>d. (ok_of d, retry_after_of d))
     (run_attempts ''gemini:X'' 2 1 empty_ledger [clock0, clock0, clock0])
    = [(True, 0), (False, 40), (False, 40)]"
  by (simp add: eval_rules)

text \<open>
  Claim C1, amended. With a daily limit N > 0, an evaluation that finds the day counter
  at N or more is denied with retry-after max(60, seconds until the next UTC midnight).
  Consequently, for sequential attempts within one UTC day on a scope whose day counter is
  not yet there: at most N attempts are admitted; every attempt made once N have been
  admitted is denied with that retry-after, which is at least 60; and when no attempt is
  stopped by the minute check (as with a minute limit of 0), exactly the first N attempts
  are admitted.
\<close>

theorem C1_daily_limit:
  assumes "0 < N"
    and "\<forall>c \<in> set cs. utc_day (dt_now c) = D"
    and "usage_day db0 (D, s) = None"
  shows "(N \<le> day_count db c s \<longrightarrow>
            \<not> ok_of (fst (consume_limit db c s N m))
          \<and> retry_after_of (fst (consume_limit db c s N m))
              = max 60 (seconds_until_midnight (dt_now c)))
       \<and> admitted (run_attempts s N m db0 cs) \<le> nat N
       \<and> (\<forall>i<length cs. nat N \<le> admitted (take i (run_attempts s N m db0 cs)) \<longrightarrow>
              \<not> ok_of (run_attempts s N m db0 cs ! i)
            \<and> retry_after_of (run_attempts s N m db0 cs ! i)
                = max 60 (seconds_until_midnight (dt_now (cs ! i)))
            \<and> 60 \<le> retry_after_of (run_attempts s N m db0 cs ! i))
       \<and> ((\<forall>i<length cs. \<not> (0 < m \<and>
                m \<le> minute_count (ledger_after s N m db0 (take i cs)) (cs ! i) s)) \<longrightarrow>
            (\<forall>i<length cs. ok_of (run_attempts s N m db0 cs ! i) \<longleftrightarrow> i < nat N))"
proof -
  have one: "N \<le> day_count db c s \<longrightarrow>
            \<not> ok_of (fst (consume_limit db c s N m))
          \<and> retry_after_of (fst (consume_limit db c s N m))
              = max 60 (seconds_until_midnight (dt_now c))"
    using daily_denial[OF assms(1)] by blast
  have most: "admitted (run_attempts s N m db0 cs) \<le> nat N"
    by (rule admitted_le_daily[OF assms])
  have after: "\<forall>i<length cs. nat N \<le> admitted (take i (run_attempts s N m db0 cs)) \<longrightarrow>
              \<not> ok_of (run_attempts s N m db0 cs ! i)
            \<and> retry_after_of (run_attempts s N m db0 cs ! i)
                = max 60 (seconds_until_midnight (dt_now (cs ! i)))
            \<and> 60 \<le> retry_after_of (run_attempts s N m db0 cs ! i)"
  proof (intro allI impI)
    fix i assume i: "i < length cs"
      and full: "nat N \<le> admitted (take i (run_attempts s N m db0 cs))"
    from full assms(1)
    have "N \<le> day_count (ledger_after s N m db0 (take i cs)) (cs ! i) s"
      by (simp add: day_count_at[OF assms(2,3) i])
    from daily_denial[OF assms(1) this]
    show "\<not> ok_of (run_attempts s N m db0 cs ! i)
            \<and> retry_after_of (run_attempts s N m db0 cs ! i)
                = max 60 (seconds_until_midnight (dt_now (cs ! i)))
            \<and> 60 \<le> retry_after_of (run_attempts s N m db0 cs ! i)"
      by (simp add: nth_run_attempts[OF i])
  qed
  have exact: "(\<forall>i<length cs. \<not> (0 < m \<and>
                m \<le> minute_count (ledger_after s N m db0 (take i cs)) (cs ! i) s)) \<longrightarrow>
            (\<forall>i<length cs. ok_of (run_attempts s N m db0 cs ! i) \<longleftrightarrow> i < nat N)"
    using first_N_admitted(2)[OF assms] by blast
  from one most after exact show ?thesis by blast
qed

theorem C1_daily_limit_witness:
  "(0::int) < 1
   \<and> utc_day (dt_now clock0) = 19675
   \<and> usage_day empty_ledger (19675, ''gemini:X'') = None
   \<and> 1 \<le> day_count ledger1 clock0 ''gemini:X''
   \<and> \<not> ok_of (fst (consume_limit ledger1 clock0 ''gemini:X'' 1 0))
   \<and> retry_after_of (fst (consume_limit ledger1 clock0 ''gemini:X'' 1 0)) = 6400
   \<and> admitted (run_attempts ''gemini:X'' 1 0 empty_ledger [clock0, clock0]) \<le> 1
   \<and> ok_of (run_attempts ''gemini:X'' 1 0 empty_ledger [clock0, clock0] ! 0)
   \<and> \<not> ok_of (run_attempts ''gemini:X'' 1 0 empty_ledger [clock0, clock0] ! Suc 0)
   \<and> retry_after_of (run_attempts ''gemini:X'' 1 0 empty_ledger [clock0, clock0] ! Suc 0) = 6400"
proof -
  have h1: "(0::int) < 1" by simp
  have h0: "utc_day (dt_now clock0) = 19675" by (simp add: clock0_values)
  have h2: "\<forall>c \<in> set [clock0, clock0]. utc_day (dt_now c) = 19675"
    by (simp add: clock0_values)
  have h3: "usage_day empty_ledger (19675, ''gemini:X'') = None"
    by (simp add: empty_ledger_def)
  have h4: "1 \<le> day_count ledger1 clock0 ''gemini:X''"
    by (simp add: counts_ledger1)
  have h5: "nat 1 \<le> admitted (take (Suc 0) (run_attempts ''gemini:X'' 1 0 empty_ledger [clock0, clock0]))"
    by (simp add: eval_rules admitted_def)
  have h6: "\<forall>i<length [clock0, clock0]. \<not> (0 < (0::int) \<and>
      0 \<le> minute_count (ledger_after ''gemini:X'' 1 0 empty_ledger (take i [clock0, clock0]))
             ([clock0, clock0] ! i) ''gemini:X'')"
    by simp
  note T = C1_daily_limit[OF h1 h2 h3, of ledger1 clock0 0]
  from T h4 have a: "\<not> ok_of (fst (consume_limit ledger1 clock0 ''gemini:X'' 1 0))
   \<and> retry_after_of (fst (consume_limit ledger1 clock0 ''gemini:X'' 1 0)) = 6400"
    by (simp add: clock0_values)
  from T have b: "admitted (run_attempts ''gemini:X'' 1 0 empty_ledger [clock0, clock0]) \<le> 1"
    by simp
  from T have "\<forall>i<length [clock0, clock0].
      nat 1 \<le> admitted (take i (run_attempts ''gemini:X'' 1 0 empty_ledger [clock0, clock0])) \<longrightarrow>
        \<not> ok_of (run_attempts ''gemini:X'' 1 0 empty_ledger [clock0, clock0] ! i)
      \<and> retry_after_of (run_attempts ''gemini:X'' 1 0 empty_ledger [clock0, clock0] ! i)
          = max 60 (seconds_until_midnight (dt_now ([clock0, clock0] ! i)))
      \<and> 60 \<le> retry_after_of (run_attempts ''gemini:X'' 1 0 empty_ledger [clock0, clock0] ! i)"
    by blast
  from this[rule_format, of "Suc 0"] h5
  have c: "\<not> ok_of (run_attempts ''gemini:X'' 1 0 empty_ledger [clock0, clock0] ! Suc 0)
   \<and> retry_after_of (run_attempts ''gemini:X'' 1 0 empty_ledger [clock0, clock0] ! Suc 0) = 6400"
    by (simp add: clock0_values)
  from T h6 have "\<forall>i<length [clock0, clock0].
      ok_of (run_attempts ''gemini:X'' 1 0 empty_ledger [clock0, clock0] ! i) \<longleftrightarrow> i < nat 1"
    by blast
  from this[rule_format, of 0]
  have d: "ok_of (run_attempts ''gemini:X'' 1 0 empty_ledger [clock0, clock0] ! 0)"
    by simp
  from h0 h1 h3 h4 a b c d show ?thesis by blast
qed

subsection \<open>The minute limit\<close>

text \<open>
  Claim C2, as stated, fails where the daily limit is reached together with the minute
  limit: the daily check comes first and its denial stands. With limits (1, 1) and two
  attempts in one minute, the first is admitted and the second, the (M + 1)-th of its
  minute bucket, is denied with the daily retry-after of 6400 seconds, above 60.
\<close>

theorem C2_counterexample:
  "map (\<lambda>d. (ok_of d, retry_after_of d))
     (run_attempts ''gemini:X'' 1 1 empty_ledger [clock0, clock0])
    = [(True, 0), (False, 6400)]"
  by (simp add: eval_rules)

text \<open>
  Claim C2, amended. With a minute limit M > 0, an evaluation that passes the daily check
  and finds the minute counter at M or more is denied with retry-after
  max(1, 60 - (now mod 60)), which lies between 1 and 60. Hence, for sequential attempts
  within one minute bucket that starts unused, at most M are admitted, and every attempt
  made once M have been admitted is denied: with that retry-after between 1 and 60 when
  the daily check passes at that attempt, and with the daily retry-after
  max(60, seconds until the next UTC midnight) when it does not.
\<close>

theorem C2_minute_limit:
  assumes "0 < M"
    and "\<forall>c \<in> set cs. time1 c div 60 = B"
    and "usage_minute db0 (B, s) = None"
  shows "(\<not> (0 < d \<and> d \<le> day_count db c s) \<and> M \<le> minute_count db c s \<longrightarrow>
            \<not> ok_of (fst (consume_limit db c s d M))
          \<and> retry_after_of (fst (consume_limit db c s d M)) = max 1 (60 - time2 c mod 60)
          \<and> 1 \<le> retry_after_of (fst (consume_limit db c s d M))
          \<and> retry_after_of (fst (consume_limit db c s d M)) \<le> 60)
       \<and> admitted (run_attempts s d M db0 cs) \<le> nat M
       \<and> (\<forall>i<length cs. nat M \<le> admitted (take i (run_attempts s d M db0 cs)) \<longrightarrow>
              \<not> ok_of (run_attempts s d M db0 cs ! i)
            \<and> (\<not> (0 < d \<and> d \<le> day_count (ledger_after s d M db0 (take i cs)) (cs ! i) s) \<longrightarrow>
                  retry_after_of (run_attempts s d M db0 cs ! i) = max 1 (60 - time2 (cs ! i) mod 60)
                \<and> 1 \<le> retry_after_of (run_attempts s d M db0 cs ! i)
                \<and> retry_after_of (run_attempts s d M db0 cs ! i) \<le> 60))
       \<and> (\<forall>i<length cs.
              0 < d \<and> d \<le> day_count (ledger_after s d M db0 (take i cs)) (cs ! i) s \<longrightarrow>
                \<not> ok_of (run_attempts s d M db0 cs ! i)
              \<and> retry_after_of (run_attempts s d M db0 cs ! i)
                  = max 60 (seconds_until_midnight (dt_now (cs ! i))))"
proof -
  have one: "\<not> (0 < d \<and> d \<le> day_count db c s) \<and> M \<le> minute_count db c s \<longrightarrow>
            \<not> ok_of (fst (consume_limit db c s d M))
          \<and> retry_after_of (fst (consume_limit db c s d M)) = max 1 (60 - time2 c mod 60)
          \<and> 1 \<le> retry_after_of (fst (consume_limit db c s d M))
          \<and> retry_after_of (fst (consume_limit db c s d M)) \<le> 60" for db c
    using minute_denial[OF assms(1), of db c s d] minute_retry_range[of "time2 c"] by auto
  have most: "admitted (run_attempts s d M db0 cs) \<le> nat M"
    by (rule admitted_le_minute[OF assms])
  have after: "\<forall>i<length cs. nat M \<le> admitted (take i (run_attempts s d M db0 cs)) \<longrightarrow>
              \<not> ok_of (run_attempts s d M db0 cs ! i)
            \<and> (\<not> (0 < d \<and> d \<le> day_count (ledger_after s d M db0 (take i cs)) (cs ! i) s) \<longrightarrow>
                  retry_after_of (run_attempts s d M db0 cs ! i) = max 1 (60 - time2 (cs ! i) mod 60)
                \<and> 1 \<le> retry_after_of (run_attempts s d M db0 cs ! i)
                \<and> retry_after_of (run_attempts s d M db0 cs ! i) \<le> 60)"
  proof (intro allI impI)
    fix i assume i: "i < length cs"
      and full: "nat M \<le> admitted (take i (run_attempts s d M db0 cs))"
    from full assms(1)
    have full': "M \<le> minute_count (ledger_after s d M db0 (take i cs)) (cs ! i) s"
      by (simp add: minute_count_at[OF assms(2,3) i])
    have eq: "run_attempts s d M db0 cs ! i
        = fst (consume_limit (ledger_after s d M db0 (take i cs)) (cs ! i) s d M)"
      by (rule nth_run_attempts[OF i])
    from minute_denial(1)[OF assms(1) full', of d]
      one[of "ledger_after s d M db0 (take i cs)" "cs ! i"] full'
    show "\<not> ok_of (run_attempts s d M db0 cs ! i)
            \<and> (\<not> (0 < d \<and> d \<le> day_count (ledger_after s d M db0 (take i cs)) (cs ! i) s) \<longrightarrow>
                  retry_after_of (run_attempts s d M db0 cs ! i) = max 1 (60 - time2 (cs ! i) mod 60)
                \<and> 1 \<le> retry_after_of (run_attempts s d M db0 cs ! i)
                \<and> retry_after_of (run_attempts s d M db0 cs ! i) \<le> 60)"
      unfolding eq by blast
  qed
  have daily: "\<forall>i<length cs.
              0 < d \<and> d \<le> day_count (ledger_after s d M db0 (take i cs)) (cs ! i) s \<longrightarrow>
                \<not> ok_of (run_attempts s d M db0 cs ! i)
              \<and> retry_after_of (run_attempts s d M db0 cs ! i)
                  = max 60 (seconds_until_midnight (dt_now (cs ! i)))"
  proof (intro allI impI)
    fix i assume i: "i < length cs"
      and full: "0 < d \<and> d \<le> day_count (ledger_after s d M db0 (take i cs)) (cs ! i) s"
    have eq: "run_attempts s d M db0 cs ! i
        = fst (consume_limit (ledger_after s d M db0 (take i cs)) (cs ! i) s d M)"
      by (rule nth_run_attempts[OF i])
    from full daily_denial[of d "ledger_after s d M db0 (take i cs)" "cs ! i" s M]
    show "\<not> ok_of (run_attempts s d M db0 cs ! i)
              \<and> retry_after_of (run_attempts s d M db0 cs ! i)
                  = max 60 (seconds_until_midnight (dt_now (cs ! i)))"
      unfolding eq by blast
  qed
  from one most after daily show ?thesis by blast
qed

theorem C2_minute_limit_witness:
  "(0::int) < 1
   \<and> time1 clock0 div 60 = 28333333
   \<and> usage_minute empty_ledger (28333333, ''gemini:X'') = None
   \<and> \<not> (0 < (0::int) \<and> 0 \<le> day_count ledger1 clock0 ''gemini:X'')
   \<and> 1 \<le> minute_count ledger1 clock0 ''gemini:X''
   \<and> \<not> ok_of (fst (consume_limit ledger1 clock0 ''gemini:X'' 0 1))
   \<and> retry_after_of (fst (consume_limit ledger1 clock0 ''gemini:X'' 0 1)) = 40
   \<and> admitted (run_attempts ''gemini:X'' 0 1 empty_ledger [clock0, clock0]) \<le> 1
   \<and> \<not> ok_of (run_attempts ''gemini:X'' 0 1 empty_ledger [clock0, clock0] ! Suc 0)
   \<and> retry_after_of (run_attempts ''gemini:X'' 0 1 empty_ledger [clock0, clock0] ! Suc 0) = 40
   \<and> \<not> ok_of (run_attempts ''gemini:X'' 1 1 empty_ledger [clock0, clock0] ! Suc 0)
   \<and> retry_after_of (run_attempts ''gemini:X'' 1 1 empty_ledger [clock0, clock0] ! Suc 0) = 6400"
proof -
  have h1: "(0::int) < 1" by simp
  have h0: "time1 clock0 div 60 = 28333333" by (simp add: clock0_values)
  have h2: "\<forall>c \<in> set [clock0, clock0]. time1 c div 60 = 28333333"
    by (simp add: clock0_values)
  have h3: "usage_minute empty_ledger (28333333, ''gemini:X'') = None"
    by (simp add: empty_ledger_def)
  have h4: "1 \<le> minute_count ledger1 clock0 ''gemini:X''"
    by (simp add: counts_ledger1)
  have h5: "nat 1 \<le> admitted (take (Suc 0) (run_attempts ''gemini:X'' 0 1 empty_ledger [clock0, clock0]))"
    by (simp add: eval_rules admitted_def)
  note T = C2_minute_limit[OF h1 h2 h3, of 0 ledger1 clock0]
  from T h4 have a: "\<not> ok_of (fst (consume_limit ledger1 clock0 ''gemini:X'' 0 1))
   \<and> retry_after_of (fst (consume_limit ledger1 clock0 ''gemini:X'' 0 1)) = 40"
    by (simp add: clock0_values)
  from T have b: "admitted (run_attempts ''gemini:X'' 0 1 empty_ledger [clock0, clock0]) \<le> 1"
    by simp
  from T have "\<forall>i<length [clock0, clock0].
      nat 1 \<le> admitted (take i (run_attempts ''gemini:X'' 0 1 empty_ledger [clock0, clock0])) \<longrightarrow>
        \<not> ok_of (run_attempts ''gemini:X'' 0 1 empty_ledger [clock0, clock0] ! i)
      \<and> (\<not> (0 < (0::int) \<and> 0 \<le> day_count (ledger_after ''gemini:X'' 0 1 empty_ledger
                (take i [clock0, clock0])) ([clock0, clock0] ! i) ''gemini:X'') \<longrightarrow>
           retry_after_of (run_attempts ''gemini:X'' 0 1 empty_ledger [clock0, clock0] ! i)
             = max 1 (60 - time2 ([clock0, clock0] ! i) mod 60)
         \<and> 1 \<le> retry_after_of (run_attempts ''gemini:X'' 0 1 empty_ledger [clock0, clock0] ! i)
         \<and> retry_after_of (run_attempts ''gemini:X'' 0 1 empty_ledger [clock0, clock0] ! i) \<le> 60)"
    by blast
  from this[rule_format, of "Suc 0"] h5
  have c: "\<not> ok_of (run_attempts ''gemini:X'' 0 1 empty_ledger [clock0, clock0] ! Suc 0)
   \<and> retry_after_of (run_attempts ''gemini:X'' 0 1 empty_ledger [clock0, clock0] ! Suc 0) = 40"
    by (simp add: clock0_values)
  have h7: "0 < (1::int) \<and> 1 \<le> day_count (ledger_after ''gemini:X'' 1 1 empty_ledger
                (take (Suc 0) [clock0, clock0])) ([clock0, clock0] ! Suc 0) ''gemini:X''"
    by (simp add: eval_rules)
  note T' = C2_minute_limit[OF h1 h2 h3, of 1 ledger1 clock0]
  from T' have "\<forall>i<length [clock0, clock0].
      0 < (1::int) \<and> 1 \<le> day_count (ledger_after ''gemini:X'' 1 1 empty_ledger
                (take i [clock0, clock0])) ([clock0, clock0] ! i) ''gemini:X'' \<longrightarrow>
        \<not> ok_of (run_attempts ''gemini:X'' 1 1 empty_ledger [clock0, clock0] ! i)
      \<and> retry_after_of (run_attempts ''gemini:X'' 1 1 empty_ledger [clock0, clock0] ! i)
          = max 60 (seconds_until_midnight (dt_now ([clock0, clock0] ! i)))"
    by blast
  from this[rule_format, of "Suc 0"] h7
  have e: "\<not> ok_of (run_attempts ''gemini:X'' 1 1 empty_ledger [clock0, clock0] ! Suc 0)
   \<and> retry_after_of (run_attempts ''gemini:X'' 1 1 empty_ledger [clock0, clock0] ! Suc 0) = 6400"
    by (simp add: clock0_values)
  from h0 h1 h3 h4 a b c e show ?thesis by simp
qed

subsection \<open>Parsing the limit overrides\<close>

lemma parse_entries_skip:
  assumes "(\<forall>name. k \<noteq> PStr name) \<or> \<not> is_dict v
           \<or> (\<exists>fields. v = PDict fields \<and> (py_int ios (dict_get fields ''rpd'') = None
                        \<or> py_int ios (dict_get fields ''rpm'') = None))"
  shows "parse_entries ios ((k, v) # rest) acc = parse_entries ios rest acc"
  using assms by (cases k; cases v) (auto split: option.splits)

lemma parse_entries_step:
  "\<exists>acc'. (\<forall>rest. parse_entries ios (kv # rest) acc = parse_entries ios rest acc')
         \<and> (\<forall>name. PStr name \<noteq> fst kv \<longrightarrow> acc' name = acc name)"
proof (cases kv)
  case (Pair k v)
  show ?thesis
  proof (cases "\<exists>name fields. k = PStr name \<and> v = PDict fields")
    case True
    then obtain name fields where kv: "k = PStr name" "v = PDict fields" by blast
    show ?thesis
    proof (cases "py_int ios (dict_get fields ''rpd'')")
      case None
      then show ?thesis unfolding Pair kv by (intro exI[of _ acc]) simp
    next
      case rpd: (Some rpd_i)
      show ?thesis
      proof (cases "py_int ios (dict_get fields ''rpm'')")
        case None
        with rpd show ?thesis unfolding Pair kv by (intro exI[of _ acc]) simp
      next
        case (Some rpm_i)
        with rpd show ?thesis
          unfolding Pair kv
          by (intro exI[of _ "acc(name \<mapsto> (max 0 rpd_i, max 0 rpm_i))"]) simp
      qed
    qed
  next
    case False
    then have "parse_entries ios ((k, v) # rest) acc = parse_entries ios rest acc" for rest
      by (cases k; cases v) simp_all
    then show ?thesis unfolding Pair by (intro exI[of _ acc]) simp
  qed
qed

lemma parse_entries_append:
  "parse_entries ios (xs @ ys) acc = parse_entries ios ys (parse_entries ios xs acc)"
proof (induction xs arbitrary: acc)
  case Nil
  then show ?case by simp
next
  case (Cons kv xs)
  from parse_entries_step[of ios kv acc]
  obtain acc' where "\<forall>rest. parse_entries ios (kv # rest) acc = parse_entries ios rest acc'"
    by blast
  then show ?case using Cons.IH[of acc'] by simp
qed

lemma parse_entries_other:
  assumes "PStr name \<notin> fst ` set kvs"
  shows "parse_entries ios kvs acc name = acc name"
  using assms
proof (induction kvs arbitrary: acc)
  case Nil
  then show ?case by simp
next
  case (Cons kv kvs)
  from parse_entries_step[of ios kv acc]
  obtain acc' where a: "\<forall>rest. parse_entries ios (kv # rest) acc = parse_entries ios rest acc'"
    and b: "\<forall>name. PStr name \<noteq> fst kv \<longrightarrow> acc' name = acc name"
    by blast
  from Cons.prems have "PStr name \<noteq> fst kv" "PStr name \<notin> fst ` set kvs" by auto
  with a b Cons.IH[of acc'] show ?case by simp
qed

lemma parse_entries_ignored:
  assumes "(\<forall>name. k \<noteq> PStr name) \<or> \<not> is_dict v
           \<or> (\<exists>fields. v = PDict fields \<and> (py_int ios (dict_get fields ''rpd'') = None
                        \<or> py_int ios (dict_get fields ''rpm'') = None))"
  shows "parse_entries ios (pre @ (k, v) # post) acc = parse_entries ios (pre @ post) acc"
  by (simp add: parse_entries_append parse_entries_skip[OF assms])

lemma raw_env0: "strip0 (environ_get env0 ''GEMINI_MODEL_LIMITS_JSON'' '''') = json0"
  by (simp add: env0_def environ_get_def strip0_def ascii_space_def json0_def)

lemma raw_env1: "strip0 (environ_get env1 ''GEMINI_MODEL_LIMITS_JSON'' '''') = ''[20, 5]''"
  by (simp add: env1_def environ_get_def strip0_def ascii_space_def)

lemma raw_env2: "strip0 (environ_get env2 ''GEMINI_MODEL_LIMITS_JSON'' '''') = ''{oops''"
  by (simp add: env2_def environ_get_def strip0_def ascii_space_def)

lemma loads0_values:
  "loads0 json0 = Some (PDict ([] @ (PStr ''a'', PDict [(PStr ''rpd'', PStr ''x''), (PStr ''rpm'', PInt 3)])
       # [(PStr ''b'', PDict [(PStr ''rpd'', PFloat (Finite (79 / 10))), (PStr ''rpm'', PInt (- 1))])]))"
  "loads0 ''[20, 5]'' = Some (PList [PInt 20, PInt 5])"
  "loads0 ''{oops'' = None"
  by (simp_all add: loads0_def json0_def)

lemma floor_79_10: "\<lfloor>(79::rat) / 10\<rfloor> = 7"
  by (rule floor_unique) simp_all

text \<open>
  Claim C9. \<open>_parse_model_limits\<close> returns a map on every input: each exception of
  \<open>json.loads\<close> and of \<open>int\<close> is caught. Let \<open>raw\<close> be the stripped value, whatever
  \<open>str.strip()\<close> removes. If the value is no valid JSON, or is JSON but no
  object, the map is empty and every resource gets its built-in default pair. An entry
  whose key is no string, whose value is no object, or whose \<open>rpd\<close> or \<open>rpm\<close> field
  \<open>int\<close> rejects is ignored: the result is that of the items without it, and the
  resource it names (the keys of a dictionary being distinct) gets its built-in default.
\<close>

theorem C9_parse_model_limits:
  assumes "raw = str_strip (environ_get env ''GEMINI_MODEL_LIMITS_JSON'' '''')"
  shows "(json_loads raw = None \<or> (\<exists>data. json_loads raw = Some data \<and> \<not> is_dict data) \<longrightarrow>
            parse_model_limits json_loads ios str_strip env = Map.empty
          \<and> (\<forall>model. limits_get (parse_model_limits json_loads ios str_strip env) model
                        = default_model_limits model))
       \<and> (raw \<noteq> [] \<and> json_loads raw = Some (PDict (pre @ (k, v) # post))
          \<and> ((\<forall>name. k \<noteq> PStr name) \<or> \<not> is_dict v
             \<or> (\<exists>fields. v = PDict fields \<and> (py_int ios (dict_get fields ''rpd'') = None
                          \<or> py_int ios (dict_get fields ''rpm'') = None))) \<longrightarrow>
            parse_model_limits json_loads ios str_strip env = parse_entries ios (pre @ post) Map.empty
          \<and> (\<forall>name. k = PStr name \<and> PStr name \<notin> fst ` set (pre @ post) \<longrightarrow>
                parse_model_limits json_loads ios str_strip env name = None
              \<and> limits_get (parse_model_limits json_loads ios str_strip env) name
                  = default_model_limits name))"
proof -
  have whole: "json_loads raw = None \<or> (\<exists>data. json_loads raw = Some data \<and> \<not> is_dict data) \<longrightarrow>
            parse_model_limits json_loads ios str_strip env = Map.empty"
    using assms
    by (auto simp add: parse_model_limits_def Let_def split: option.splits pyval.splits)
  then have whole': "json_loads raw = None \<or> (\<exists>data. json_loads raw = Some data \<and> \<not> is_dict data) \<longrightarrow>
            parse_model_limits json_loads ios str_strip env = Map.empty
          \<and> (\<forall>model. limits_get (parse_model_limits json_loads ios str_strip env) model
                        = default_model_limits model)"
    by (auto simp add: limits_get_def)
  have entry: "parse_model_limits json_loads ios str_strip env = parse_entries ios (pre @ post) Map.empty
          \<and> (\<forall>name. k = PStr name \<and> PStr name \<notin> fst ` set (pre @ post) \<longrightarrow>
                parse_model_limits json_loads ios str_strip env name = None
              \<and> limits_get (parse_model_limits json_loads ios str_strip env) name
                  = default_model_limits name)"
    if ne: "raw \<noteq> []" and l: "json_loads raw = Some (PDict (pre @ (k, v) # post))"
      and inv: "(\<forall>name. k \<noteq> PStr name) \<or> \<not> is_dict v
             \<or> (\<exists>fields. v = PDict fields \<and> (py_int ios (dict_get fields ''rpd'') = None
                          \<or> py_int ios (dict_get fields ''rpm'') = None))"
  proof -
    have "parse_model_limits json_loads ios str_strip env
            = parse_entries ios (pre @ (k, v) # post) Map.empty"
      using assms ne l by (simp add: parse_model_limits_def Let_def)
    then have eq: "parse_model_limits json_loads ios str_strip env = parse_entries ios (pre @ post) Map.empty"
      by (simp add: parse_entries_ignored[OF inv])
    have "parse_entries ios (pre @ post) Map.empty name = None"
      if "PStr name \<notin> fst ` set (pre @ post)" for name
      using parse_entries_other[OF that, of ios Map.empty] by simp
    with eq show ?thesis by (simp add: limits_get_def)
  qed
  from whole' entry show ?thesis by blast
qed

theorem C9_parse_model_limits_witness:
  "parse_model_limits loads0 int_of_str0 strip0 env2 = Map.empty
   \<and> parse_model_limits loads0 int_of_str0 strip0 env1 = Map.empty
   \<and> limits_get (parse_model_limits loads0 int_of_str0 strip0 env1) ''gemini-2.5-flash-lite'' = (20, 10)
   \<and> parse_model_limits loads0 int_of_str0 strip0 env0 ''a'' = None
   \<and> limits_get (parse_model_limits loads0 int_of_str0 strip0 env0) ''a'' = (20, 5)
   \<and> parse_model_limits loads0 int_of_str0 strip0 env0 ''b'' = Some (7, 0)"
proof -
  from C9_parse_model_limits[where str_strip = strip0 and env = env2 and json_loads = loads0
      and ios = int_of_str0, OF raw_env2[symmetric]]
  have a: "parse_model_limits loads0 int_of_str0 strip0 env2 = Map.empty"
    by (simp add: loads0_values)
  have hyp: "loads0 ''[20, 5]'' = None
      \<or> (\<exists>data. loads0 ''[20, 5]'' = Some data \<and> \<not> is_dict data)"
    by (simp add: loads0_values)
  from C9_parse_model_limits[where str_strip = strip0 and env = env1 and json_loads = loads0
      and ios = int_of_str0, OF raw_env1[symmetric]] hyp
  have b0: "parse_model_limits loads0 int_of_str0 strip0 env1 = Map.empty
   \<and> (\<forall>model. limits_get (parse_model_limits loads0 int_of_str0 strip0 env1) model
                  = default_model_limits model)"
    by blast
  then have "limits_get (parse_model_limits loads0 int_of_str0 strip0 env1) ''gemini-2.5-flash-lite''
      = default_model_limits ''gemini-2.5-flash-lite''"
    by blast
  with b0 have b: "parse_model_limits loads0 int_of_str0 strip0 env1 = Map.empty
   \<and> limits_get (parse_model_limits loads0 int_of_str0 strip0 env1) ''gemini-2.5-flash-lite'' = (20, 10)"
    by (simp add: default_model_limits_def)
  have ne: "json0 \<noteq> []" by (simp add: json0_def)
  have inv: "py_int int_of_str0 (dict_get [(PStr ''rpd'', PStr ''x''), (PStr ''rpm'', PInt 3)] ''rpd'') = None"
    by (simp add: dict_get_def int_of_str0_def)
  have H: "json0 \<noteq> [] \<and> loads0 json0 = Some (PDict ([] @ (PStr ''a'',
        PDict [(PStr ''rpd'', PStr ''x''), (PStr ''rpm'', PInt 3)])
       # [(PStr ''b'', PDict [(PStr ''rpd'', PFloat (Finite (79 / 10))), (PStr ''rpm'', PInt (- 1))])]))
     \<and> ((\<forall>name. PStr ''a'' \<noteq> PStr name)
        \<or> \<not> is_dict (PDict [(PStr ''rpd'', PStr ''x''), (PStr ''rpm'', PInt 3)])
        \<or> (\<exists>fields. PDict [(PStr ''rpd'', PStr ''x''), (PStr ''rpm'', PInt 3)] = PDict fields
              \<and> (py_int int_of_str0 (dict_get fields ''rpd'') = None
                 \<or> py_int int_of_str0 (dict_get fields ''rpm'') = None)))"
    using ne inv loads0_values(1) by blast
  have fresh: "PStr ''a'' \<notin> fst ` set ([] @
       [(PStr ''b'', PDict [(PStr ''rpd'', PFloat (Finite (79 / 10))), (PStr ''rpm'', PInt (- 1))])])"
    by simp
  note T = C9_parse_model_limits[where str_strip = strip0 and env = env0 and json_loads = loads0
      and ios = int_of_str0 and pre = "[]" and k = "PStr ''a''"
      and v = "PDict [(PStr ''rpd'', PStr ''x''), (PStr ''rpm'', PInt 3)]"
      and post = "[(PStr ''b'', PDict [(PStr ''rpd'', PFloat (Finite (79 / 10))), (PStr ''rpm'', PInt (- 1))])]",
      OF raw_env0[symmetric]]
  from T H have c1: "parse_model_limits loads0 int_of_str0 strip0 env0
             = parse_entries int_of_str0 ([] @
                 [(PStr ''b'', PDict [(PStr ''rpd'', PFloat (Finite (79 / 10))), (PStr ''rpm'', PInt (- 1))])])
                 Map.empty"
    by blast
  from T H fresh have c2: "parse_model_limits loads0 int_of_str0 strip0 env0 ''a'' = None
         \<and> limits_get (parse_model_limits loads0 int_of_str0 strip0 env0) ''a'' = default_model_limits ''a''"
    by blast
  then have c: "parse_model_limits loads0 int_of_str0 strip0 env0 ''a'' = None
         \<and> limits_get (parse_model_limits loads0 int_of_str0 strip0 env0) ''a'' = (20, 5)"
    by (simp add: default_model_limits_def)
  have d: "parse_model_limits loads0 int_of_str0 strip0 env0 ''b'' = Some (7, 0)"
    unfolding c1 by (simp add: dict_get_def floor_79_10)
  from a b c d show ?thesis by blast
qed

subsection \<open>The fallback selector\<close>

lemma json0_nonempty: "json0 \<noteq> []"
  by (simp add: json0_def)

lemma limits0:
  "limits_get (parse_model_limits loads0 int_of_str0 strip0 env0) ''a'' = (20, 5)"
  "limits_get (parse_model_limits loads0 int_of_str0 strip0 env0) ''b'' = (7, 0)"
  "limits_get (parse_model_limits loads0 int_of_str0 strip0 env0) ''c'' = (20, 5)"
  by (simp_all add: parse_model_limits_def raw_env0 loads0_values Let_def json0_nonempty
        limits_get_def dict_get_def int_of_str0_def floor_79_10 default_model_limits_def)

lemma world_ab_counts:
  "day_count ledger_ab clock0 ''gemini:a'' = 3" "minute_count ledger_ab clock0 ''gemini:a'' = 5"
  "day_count ledger_ab clock0 ''gemini:b'' = 7" "minute_count ledger_ab clock0 ''gemini:b'' = 0"
  "day_count ledger_ab clock0 ''gemini:c'' = 0" "minute_count ledger_ab clock0 ''gemini:c'' = 0"
  by (simp_all add: day_count_def minute_count_def ledger_ab_def clock0_values count_of_def)

lemma attempts_bac:
  "map (\<lambda>a. (model_of a, ok_of (decision_of a), retry_after_of (decision_of a)))
       (attempts clk0 (parse_model_limits loads0 int_of_str0 strip0 env0) {''a'', ''b'', ''c''}
          [''b'', ''x'', ''a'', ''c''] world_ab)
     = [(''b'', False, 6400), (''a'', False, 40), (''c'', True, 0)]"
  by (simp add: limits0 consume_limit_at_def world_ab_def clk0_def consume_limit_unfold
        world_ab_counts clock0_values)

lemma attempts_ba:
  "map (\<lambda>a. (model_of a, ok_of (decision_of a), retry_after_of (decision_of a)))
       (attempts clk0 (parse_model_limits loads0 int_of_str0 strip0 env0) {''a'', ''b'', ''c''}
          [''b'', ''x'', ''a''] world_ab)
     = [(''b'', False, 6400), (''a'', False, 40)]"
  by (simp add: limits0 consume_limit_at_def world_ab_def clk0_def consume_limit_unfold
        world_ab_counts clock0_values)

text \<open>
  Claim C5. Let the trace be the evaluations \<open>_pick_model\<close> makes. Its models are a
  prefix of the preferred list with the models outside the allowed set left out, in the
  given order; every entry is the evaluation of that model's own scope \<open>gemini:<model>\<close>,
  with the limits looked up for that model, on the state the previous entry left; every
  entry before the last is a denial. If the last entry is an admission, the selector
  returns that model with its headers and retry-after 0. If the last entry is a denial,
  every allowed candidate was tried and the selector returns no model, the headers of the
  last attempt and the maximum retry-after over all attempts. The scopes evaluated are
  exactly the resource scopes of the trace.
\<close>

theorem C5_fallback_selector:
  assumes "ml = parse_model_limits json_loads ios str_strip env"
    and "tr = attempts clk ml allowed preferred w"
  shows "map model_of tr = take (length tr) (filter (\<lambda>m. m \<in> allowed) preferred)
       \<and> (\<forall>i<length tr.
             snd (tr ! i) = consume_limit_at clk (if i = 0 then w else world_of (tr ! (i - 1)))
                              (''gemini:'' @ model_of (tr ! i))
                              (fst (limits_get ml (model_of (tr ! i))))
                              (snd (limits_get ml (model_of (tr ! i)))))
       \<and> (\<forall>a \<in> set (butlast tr). \<not> ok_of (decision_of a))
       \<and> (tr \<noteq> [] \<and> ok_of (decision_of (last tr)) \<longrightarrow>
             pick_model json_loads ios str_strip env clk preferred allowed w
               = ((Some (model_of (last tr)), Some (headers_of (decision_of (last tr))), 0),
                  world_of (last tr)))
       \<and> (tr \<noteq> [] \<and> \<not> ok_of (decision_of (last tr)) \<longrightarrow>
             map model_of tr = filter (\<lambda>m. m \<in> allowed) preferred
           \<and> pick_model json_loads ios str_strip env clk preferred allowed w
               = ((None, Some (headers_of (decision_of (last tr))),
                   Max (set (map (\<lambda>a. retry_after_of (decision_of a)) tr))),
                  world_of (last tr)))
       \<and> calls (snd (pick_model json_loads ios str_strip env clk preferred allowed w))
            = calls w @ map (\<lambda>a. ''gemini:'' @ model_of a) tr"
proof -
  have order: "map model_of tr = take (length tr) (filter (\<lambda>m. m \<in> allowed) preferred)"
    unfolding assms(2) by (rule attempts_models)
  have own: "\<forall>i<length tr.
             snd (tr ! i) = consume_limit_at clk (if i = 0 then w else world_of (tr ! (i - 1)))
                              (''gemini:'' @ model_of (tr ! i))
                              (fst (limits_get ml (model_of (tr ! i))))
                              (snd (limits_get ml (model_of (tr ! i))))"
    unfolding assms(2) using attempts_step by blast
  have before: "\<forall>a \<in> set (butlast tr). \<not> ok_of (decision_of a)"
    unfolding assms(2) using attempts_before_last_denied by blast
  have first: "tr \<noteq> [] \<and> ok_of (decision_of (last tr)) \<longrightarrow>
             pick_model json_loads ios str_strip env clk preferred allowed w
               = ((Some (model_of (last tr)), Some (headers_of (decision_of (last tr))), 0),
                  world_of (last tr))"
    unfolding assms using pick_model_admitted by blast
  have none: "tr \<noteq> [] \<and> \<not> ok_of (decision_of (last tr)) \<longrightarrow>
             map model_of tr = filter (\<lambda>m. m \<in> allowed) preferred
           \<and> pick_model json_loads ios str_strip env clk preferred allowed w
               = ((None, Some (headers_of (decision_of (last tr))),
                   Max (set (map (\<lambda>a. retry_after_of (decision_of a)) tr))),
                  world_of (last tr))"
    unfolding assms using pick_model_exhausted attempts_exhausted by blast
  have scopes: "calls (snd (pick_model json_loads ios str_strip env clk preferred allowed w))
            = calls w @ map (\<lambda>a. ''gemini:'' @ model_of a) tr"
    unfolding assms pick_model_world by (rule attempts_calls)
  from order own before first none scopes show ?thesis by blast
qed

theorem C5_fallback_selector_witness:
  "fst (fst (pick_model loads0 int_of_str0 strip0 env0 clk0 [''b'', ''x'', ''a'', ''c''] {''a'', ''b'', ''c''} world_ab))
     = Some ''c''
   \<and> snd (snd (fst (pick_model loads0 int_of_str0 strip0 env0 clk0 [''b'', ''x'', ''a'', ''c''] {''a'', ''b'', ''c''} world_ab)))
     = 0
   \<and> calls (snd (pick_model loads0 int_of_str0 strip0 env0 clk0 [''b'', ''x'', ''a'', ''c''] {''a'', ''b'', ''c''} world_ab))
     = [''gemini:b'', ''gemini:a'', ''gemini:c'']
   \<and> fst (fst (pick_model loads0 int_of_str0 strip0 env0 clk0 [''b'', ''x'', ''a''] {''a'', ''b'', ''c''} world_ab))
     = None
   \<and> snd (snd (fst (pick_model loads0 int_of_str0 strip0 env0 clk0 [''b'', ''x'', ''a''] {''a'', ''b'', ''c''} world_ab)))
     = 6400
   \<and> calls (snd (pick_model loads0 int_of_str0 strip0 env0 clk0 [''b'', ''x'', ''a''] {''a'', ''b'', ''c''} world_ab))
     = [''gemini:b'', ''gemini:a'']"
proof -
  define tr1 where "tr1 = attempts clk0 (parse_model_limits loads0 int_of_str0 strip0 env0) {''a'', ''b'', ''c''}
          [''b'', ''x'', ''a'', ''c''] world_ab"
  define tr2 where "tr2 = attempts clk0 (parse_model_limits loads0 int_of_str0 strip0 env0) {''a'', ''b'', ''c''}
          [''b'', ''x'', ''a''] world_ab"
  have m1: "map (\<lambda>a. (model_of a, ok_of (decision_of a), retry_after_of (decision_of a))) tr1
      = [(''b'', False, 6400), (''a'', False, 40), (''c'', True, 0)]"
    unfolding tr1_def by (rule attempts_bac)
  have m2: "map (\<lambda>a. (model_of a, ok_of (decision_of a), retry_after_of (decision_of a))) tr2
      = [(''b'', False, 6400), (''a'', False, 40)]"
    unfolding tr2_def by (rule attempts_ba)
  from m1 have ne1: "tr1 \<noteq> []" by auto
  from m2 have ne2: "tr2 \<noteq> []" by auto
  from m1 have "last (map (\<lambda>a. (model_of a, ok_of (decision_of a), retry_after_of (decision_of a))) tr1)
      = (''c'', True, 0)" by simp
  with ne1 have l1: "model_of (last tr1) = ''c''" "ok_of (decision_of (last tr1))"
    by (simp_all add: last_map)
  from m2 have "last (map (\<lambda>a. (model_of a, ok_of (decision_of a), retry_after_of (decision_of a))) tr2)
      = (''a'', False, 40)" by simp
  with ne2 have l2: "\<not> ok_of (decision_of (last tr2))"
    by (simp add: last_map)
  from m1 have "map fst (map (\<lambda>a. (model_of a, ok_of (decision_of a), retry_after_of (decision_of a))) tr1)
      = [''b'', ''a'', ''c'']" by simp
  then have n1: "map model_of tr1 = [''b'', ''a'', ''c'']" by (simp add: comp_def)
  from m2 have "map fst (map (\<lambda>a. (model_of a, ok_of (decision_of a), retry_after_of (decision_of a))) tr2)
      = [''b'', ''a'']" by simp
  then have n2: "map model_of tr2 = [''b'', ''a'']" by (simp add: comp_def)
  from m2 have "map (\<lambda>p. snd (snd p)) (map (\<lambda>a. (model_of a, ok_of (decision_of a), retry_after_of (decision_of a))) tr2)
      = [6400, 40]" by simp
  then have r2: "map (\<lambda>a. retry_after_of (decision_of a)) tr2 = [6400, 40]" by (simp add: comp_def)
  have s1: "map (\<lambda>a. ''gemini:'' @ model_of a) tr1 = map (\<lambda>m. ''gemini:'' @ m) (map model_of tr1)"
    by (simp add: comp_def)
  have s2: "map (\<lambda>a. ''gemini:'' @ model_of a) tr2 = map (\<lambda>m. ''gemini:'' @ m) (map model_of tr2)"
    by (simp add: comp_def)
  note T1 = C5_fallback_selector[OF refl tr1_def]
  note T2 = C5_fallback_selector[OF refl tr2_def]
  from T1 ne1 l1(2)
  have p1: "pick_model loads0 int_of_str0 strip0 env0 clk0 [''b'', ''x'', ''a'', ''c''] {''a'', ''b'', ''c''} world_ab
      = ((Some (model_of (last tr1)), Some (headers_of (decision_of (last tr1))), 0), world_of (last tr1))"
    by blast
  from T1 have c1: "calls (snd (pick_model loads0 int_of_str0 strip0 env0 clk0 [''b'', ''x'', ''a'', ''c''] {''a'', ''b'', ''c''} world_ab))
      = calls world_ab @ map (\<lambda>a. ''gemini:'' @ model_of a) tr1"
    by blast
  from T2 ne2 l2
  have p2: "pick_model loads0 int_of_str0 strip0 env0 clk0 [''b'', ''x'', ''a''] {''a'', ''b'', ''c''} world_ab
      = ((None, Some (headers_of (decision_of (last tr2))),
          Max (set (map (\<lambda>a. retry_after_of (decision_of a)) tr2))), world_of (last tr2))"
    by blast
  from T2 have c2: "calls (snd (pick_model loads0 int_of_str0 strip0 env0 clk0 [''b'', ''x'', ''a''] {''a'', ''b'', ''c''} world_ab))
      = calls world_ab @ map (\<lambda>a. ''gemini:'' @ model_of a) tr2"
    by blast
  have a: "fst (fst (pick_model loads0 int_of_str0 strip0 env0 clk0 [''b'', ''x'', ''a'', ''c''] {''a'', ''b'', ''c''} world_ab))
     = Some ''c''"
    unfolding p1 using l1(1) by simp
  have b: "snd (snd (fst (pick_model loads0 int_of_str0 strip0 env0 clk0 [''b'', ''x'', ''a'', ''c''] {''a'', ''b'', ''c''} world_ab)))
     = 0"
    unfolding p1 by simp
  have c: "calls (snd (pick_model loads0 int_of_str0 strip0 env0 clk0 [''b'', ''x'', ''a'', ''c''] {''a'', ''b'', ''c''} world_ab))
     = [''gemini:b'', ''gemini:a'', ''gemini:c'']"
    unfolding c1 s1 n1 by (simp add: world_ab_def)
  have d: "fst (fst (pick_model loads0 int_of_str0 strip0 env0 clk0 [''b'', ''x'', ''a''] {''a'', ''b'', ''c''} world_ab))
     = None"
    unfolding p2 by simp
  have e: "snd (snd (fst (pick_model loads0 int_of_str0 strip0 env0 clk0 [''b'', ''x'', ''a''] {''a'', ''b'', ''c''} world_ab)))
     = 6400"
    unfolding p2 r2 by simp
  have f: "calls (snd (pick_model loads0 int_of_str0 strip0 env0 clk0 [''b'', ''x'', ''a''] {''a'', ''b'', ''c''} world_ab))
     = [''gemini:b'', ''gemini:a'']"
    unfolding c2 s2 n2 by (simp add: world_ab_def)
  from a b c d e f show ?thesis by blast
qed

subsection \<open>The selector with nothing to try\<close>

text \<open>
  Claim C10. When no preferred model is in the allowed set (in particular when the
  preferred list is empty) the selector evaluates nothing and returns no model, no headers
  and a retry-after of 60, leaving the state as it was. In general, when it returns no
  model, the retry-after is the maximum over 0 and the observed values, and 60 when that
  maximum is 0.
\<close>

theorem C10_nothing_attempted:
  assumes "tr = attempts clk (parse_model_limits json_loads ios str_strip env) allowed preferred w"
  shows "(filter (\<lambda>m. m \<in> allowed) preferred = [] \<longrightarrow>
            tr = []
          \<and> pick_model json_loads ios str_strip env clk preferred allowed w = ((None, None, 60), w))
       \<and> (fst (fst (pick_model json_loads ios str_strip env clk preferred allowed w)) = None \<longrightarrow>
            snd (snd (fst (pick_model json_loads ios str_strip env clk preferred allowed w)))
              = (if Max (insert 0 (set (map (\<lambda>a. retry_after_of (decision_of a)) tr))) = 0
                 then 60
                 else Max (insert 0 (set (map (\<lambda>a. retry_after_of (decision_of a)) tr)))))"
proof -
  have a: "tr = [] \<and> pick_model json_loads ios str_strip env clk preferred allowed w = ((None, None, 60), w)"
    if "filter (\<lambda>m. m \<in> allowed) preferred = []"
  proof -
    from attempts_models[of clk "parse_model_limits json_loads ios str_strip env" allowed preferred w] that
    have "tr = []" unfolding assms by simp
    then show ?thesis using pick_model_none_attempted unfolding assms by blast
  qed
  have b: "fst (fst (pick_model json_loads ios str_strip env clk preferred allowed w)) = None \<longrightarrow>
            snd (snd (fst (pick_model json_loads ios str_strip env clk preferred allowed w)))
              = (if Max (insert 0 (set (map (\<lambda>a. retry_after_of (decision_of a)) tr))) = 0
                 then 60
                 else Max (insert 0 (set (map (\<lambda>a. retry_after_of (decision_of a)) tr))))"
    unfolding assms using pick_model_retry by blast
  from a b show ?thesis by blast
qed

theorem C10_nothing_attempted_witness:
  "filter (\<lambda>m. m \<in> {''a'', ''b'', ''c''}) [''x'', ''y''] = []
   \<and> pick_model loads0 int_of_str0 strip0 env0 clk0 [''x'', ''y''] {''a'', ''b'', ''c''} world_ab
       = ((None, None, 60), world_ab)
   \<and> pick_model loads0 int_of_str0 strip0 env0 clk0 [] {''a'', ''b'', ''c''} world_ab
       = ((None, None, 60), world_ab)
   \<and> snd (snd (fst (pick_model loads0 int_of_str0 strip0 env0 clk0 [''x'', ''y''] {''a'', ''b'', ''c''} world_ab)))
       = 60"
proof -
  have h1: "filter (\<lambda>m. m \<in> {''a'', ''b'', ''c''}) [''x'', ''y''] = []" by simp
  have h2: "filter (\<lambda>m. m \<in> {''a'', ''b'', ''c''}) ([] :: string list) = []" by simp
  define tr1 where "tr1 = attempts clk0 (parse_model_limits loads0 int_of_str0 strip0 env0) {''a'', ''b'', ''c''}
          [''x'', ''y''] world_ab"
  define tr2 where "tr2 = attempts clk0 (parse_model_limits loads0 int_of_str0 strip0 env0) {''a'', ''b'', ''c''}
          [] world_ab"
  note T1 = C10_nothing_attempted[OF tr1_def]
  note T2 = C10_nothing_attempted[OF tr2_def]
  from T1 h1 have a: "tr1 = []
    \<and> pick_model loads0 int_of_str0 strip0 env0 clk0 [''x'', ''y''] {''a'', ''b'', ''c''} world_ab
       = ((None, None, 60), world_ab)"
    by blast
  from T2 h2 have b: "pick_model loads0 int_of_str0 strip0 env0 clk0 [] {''a'', ''b'', ''c''} world_ab
       = ((None, None, 60), world_ab)"
    by blast
  from a have n: "fst (fst (pick_model loads0 int_of_str0 strip0 env0 clk0 [''x'', ''y''] {''a'', ''b'', ''c''} world_ab)) = None"
    by simp
  from T1 n have "snd (snd (fst (pick_model loads0 int_of_str0 strip0 env0 clk0 [''x'', ''y''] {''a'', ''b'', ''c''} world_ab)))
       = (if Max (insert 0 (set (map (\<lambda>a. retry_after_of (decision_of a)) tr1))) = 0
          then 60
          else Max (insert 0 (set (map (\<lambda>a. retry_after_of (decision_of a)) tr1))))"
    by blast
  with a have c: "snd (snd (fst (pick_model loads0 int_of_str0 strip0 env0 clk0 [''x'', ''y''] {''a'', ''b'', ''c''} world_ab))) = 60"
    by simp
  from h1 a b c show ?thesis by blast
qed

subsection \<open>The site total in the request handler\<close>

lemma pick_model_calls:
  "\<exists>rest. calls (snd (pick_model jl ios st env clk preferred allowed w)) = calls w @ rest
         \<and> (\<forall>s \<in> set rest. \<exists>m. s = ''gemini:'' @ m)"
proof -
  have "calls (snd (pick_model jl ios st env clk preferred allowed w))
      = calls w @ map (\<lambda>a. ''gemini:'' @ model_of a)
                    (attempts clk (parse_model_limits jl ios st env) allowed preferred w)"
    unfolding pick_model_world by (rule attempts_calls)
  then show ?thesis by auto
qed

lemma select_or_429_calls:
  "\<exists>rest. calls (snd (select_or_429 jl ios st env clk var allowed th w)) = calls w @ rest
         \<and> (\<forall>s \<in> set rest. \<exists>m. s = ''gemini:'' @ m)"
proof -
  have "snd (select_or_429 jl ios st env clk var allowed th w)
      = snd (pick_model jl ios st env clk
               (split_csv st (environ_get env var ''gemini-2.5-flash,gemini-2.5-flash-lite,gemini-3-flash''))
               allowed w)"
    by (simp add: select_or_429_def split: prod.splits)
  then show ?thesis using pick_model_calls by simp
qed

lemma admit_resource_calls:
  "\<exists>rest. calls (snd (admit_resource jl ios st env clk req bdy allowed th w)) = calls w @ rest
         \<and> (\<forall>s \<in> set rest. \<exists>m. s = ''gemini:'' @ m)"
proof (cases "path req = ''/api/gemini''")
  case False
  then show ?thesis
    using select_or_429_calls[of jl ios st env clk "''GEMINI_FLASHCRAFT_MODELS''" allowed th w]
    by (simp add: admit_resource_def)
next
  case gem: True
  show ?thesis
  proof (cases "requested_model st bdy")
    case None
    with gem show ?thesis by (simp add: admit_resource_def)
  next
    case (Some requested)
    show ?thesis
    proof (cases "requested = []")
      case True
      with gem Some show ?thesis
        using select_or_429_calls[of jl ios st env clk "''GEMINI_MARKCRAFT_MODELS''" allowed th w]
        by (simp add: admit_resource_def)
    next
      case ne: False
      show ?thesis
      proof (cases "requested \<in> allowed")
        case False
        with gem Some ne show ?thesis by (simp add: admit_resource_def)
      next
        case True
        define r where "r = consume_limit_at clk w (''gemini:'' @ requested)
                       (fst (limits_get (parse_model_limits jl ios st env) requested))
                       (snd (limits_get (parse_model_limits jl ios st env) requested))"
        have "snd (admit_resource jl ios st env clk req bdy allowed th w) = snd r"
          using gem Some ne True unfolding r_def
          by (simp add: admit_resource_def split: prod.splits)
        moreover have "calls (snd r) = calls w @ [''gemini:'' @ requested]"
          unfolding r_def by (rule consume_limit_at_calls)
        ultimately show ?thesis by auto
      qed
    qed
  qed
qed

lemma consume_limit_at_denied:
  assumes "\<not> ok_of (fst (consume_limit_at clk w s d m))"
  shows "wdb (snd (consume_limit_at clk w s d m)) = wdb w"
  using assms consume_denied_ledger[of "wdb w" "clk (length (calls w))" s d m]
  by (simp add: consume_limit_at_def)

lemma env_site_values:
  "strip0 (environ_get env_site ''GEMINI_API_KEY'' '''') \<noteq> []"
  "int_of_str0 (environ_get env_site ''SITE_TOTAL_RPD_LIMIT'' ''0'') = Some 5"
  "int_of_str0 (environ_get env_site ''SITE_TOTAL_RPM_LIMIT'' ''0'') = Some 0"
  by (simp_all add: env_site_def environ_get_def strip0_def ascii_space_def int_of_str0_def)

lemma split_allowed:
  "split_csv strip0 (environ_get env_site ''GEMINI_ALLOWED_MODELS'' ''gemini-2.5-flash'')
     = [''gemini-2.5-flash'', ''gemini-2.5-flash-lite'']"
  by (simp add: env_site_def environ_get_def split_csv_def strip0_def ascii_space_def)

lemma split_preferred:
  "split_csv strip0 (environ_get env_site ''GEMINI_MARKCRAFT_MODELS''
       ''gemini-2.5-flash,gemini-2.5-flash-lite,gemini-3-flash'')
     = [''gemini-2.5-flash'', ''gemini-2.5-flash-lite'', ''gemini-3-flash'']"
  by (simp add: env_site_def environ_get_def split_csv_def strip0_def ascii_space_def)

lemma limits_site:
  "parse_model_limits loads0 int_of_str0 strip0 env_site = Map.empty"
  by (simp add: parse_model_limits_def env_site_def environ_get_def strip0_def)

lemma do_POST_site_open_calls:
  "calls (snd (do_POST loads0 int_of_str0 strip0 env_site clk0 req0 world_site_open))
     = [''site_total'', ''gemini:gemini-2.5-flash'', ''gemini:gemini-2.5-flash-lite'']"
  by (simp add: do_POST_def req0_def env_site_values split_allowed split_preferred
        admit_resource_def select_or_429_def pick_model_def limits_site limits_get_def
        default_model_limits_def consume_limit_at_def consume_limit_unfold day_count_def
        minute_count_def world_site_open_def clk0_def clock0_values count_of_def
        upsert_increment_def delete_minutes_before_def dict_get_def Let_def)

lemma site_full_global:
  "fst (consume_limit_at clk0 world_site_full ''site_total'' 5 0)
     = (False, 6400, rate_headers ''site_total'' 5 5 0 0)"
  by (simp add: consume_limit_at_def consume_limit_unfold day_count_def minute_count_def
        world_site_full_def clk0_def clock0_values count_of_def)

text \<open>
  Claim C6. For a request that reaches the limits (a known path, an API key, a body that
  decodes) under a configuration whose site total has a limit above 0, the first scope
  evaluated is \<open>site_total\<close>, on the state the request found, and it is evaluated exactly
  once, however many candidates the fallback then tries: every later evaluation is of a
  resource scope. If that evaluation denies, the handler answers 429 with its retry-after
  and headers at once, no further scope is evaluated and the ledger is left as it was.
\<close>

theorem C6_global_scope_first:
  assumes "path req = ''/api/gemini'' \<or> path req = ''/api/flashcraft/generate_deck''"
    and "str_strip (environ_get env ''GEMINI_API_KEY'' '''') \<noteq> []"
    and "body req = Some bdy"
    and "int_of_str (environ_get env ''SITE_TOTAL_RPD_LIMIT'' ''0'') = Some total_rpd_limit"
    and "int_of_str (environ_get env ''SITE_TOTAL_RPM_LIMIT'' ''0'') = Some total_rpm_limit"
    and "0 < total_rpd_limit \<or> 0 < total_rpm_limit"
    and "g = consume_limit_at clk w ''site_total'' total_rpd_limit total_rpm_limit"
  shows "(\<exists>rest. calls (snd (do_POST json_loads int_of_str str_strip env clk req w))
                  = calls w @ ''site_total'' # rest
               \<and> ''site_total'' \<notin> set rest)
       \<and> (\<not> ok_of (fst g) \<longrightarrow>
             do_POST json_loads int_of_str str_strip env clk req w
               = (Response429 (retry_after_of (fst g)) (headers_of (fst g))
                    ''Site quota exceeded. Try again later.'', snd g)
           \<and> wdb (snd (do_POST json_loads int_of_str str_strip env clk req w)) = wdb w
           \<and> calls (snd (do_POST json_loads int_of_str str_strip env clk req w)) = calls w @ [''site_total''])"
proof -
  define allowed_models where "allowed_models =
     (if set (split_csv str_strip (environ_get env ''GEMINI_ALLOWED_MODELS'' ''gemini-2.5-flash'')) = {}
      then {''gemini-2.5-flash''}
      else set (split_csv str_strip (environ_get env ''GEMINI_ALLOWED_MODELS'' ''gemini-2.5-flash'')))"
  have unfold: "do_POST json_loads int_of_str str_strip env clk req w
      = (if \<not> ok_of (fst g)
         then (Response429 (retry_after_of (fst g)) (headers_of (fst g))
                 ''Site quota exceeded. Try again later.'', snd g)
         else admit_resource json_loads int_of_str str_strip env clk req bdy allowed_models
                (headers_of (fst g)) (snd g))"
    using assms(1-6) unfolding assms(7) allowed_models_def
    by (auto simp add: do_POST_def Let_def split: prod.splits)
  have gc: "calls (snd g) = calls w @ [''site_total'']"
    unfolding assms(7) by (rule consume_limit_at_calls)
  have denied: "\<not> ok_of (fst g) \<longrightarrow>
             do_POST json_loads int_of_str str_strip env clk req w
               = (Response429 (retry_after_of (fst g)) (headers_of (fst g))
                    ''Site quota exceeded. Try again later.'', snd g)
           \<and> wdb (snd (do_POST json_loads int_of_str str_strip env clk req w)) = wdb w
           \<and> calls (snd (do_POST json_loads int_of_str str_strip env clk req w)) = calls w @ [''site_total'']"
    using unfold gc consume_limit_at_denied[of clk w "''site_total''" total_rpd_limit total_rpm_limit]
    unfolding assms(7) by simp
  have once: "\<exists>rest. calls (snd (do_POST json_loads int_of_str str_strip env clk req w))
                  = calls w @ ''site_total'' # rest
               \<and> ''site_total'' \<notin> set rest"
  proof (cases "ok_of (fst g)")
    case False
    with unfold gc show ?thesis by simp
  next
    case True
    from admit_resource_calls[of json_loads int_of_str str_strip env clk req bdy allowed_models
        "headers_of (fst g)" "snd g"]
    obtain rest where r: "calls (snd (admit_resource json_loads int_of_str str_strip env clk req bdy
          allowed_models (headers_of (fst g)) (snd g))) = calls (snd g) @ rest"
      and p: "\<forall>s \<in> set rest. \<exists>m. s = ''gemini:'' @ m"
      by blast
    from p have "''site_total'' \<notin> set rest" by auto
    with True unfold r gc show ?thesis by simp
  qed
  from once denied show ?thesis by blast
qed

theorem C6_global_scope_first_witness:
  "do_POST loads0 int_of_str0 strip0 env_site clk0 req0 world_site_full
     = (Response429 6400 (rate_headers ''site_total'' 5 5 0 0)
          ''Site quota exceeded. Try again later.'',
        snd (consume_limit_at clk0 world_site_full ''site_total'' 5 0))
   \<and> wdb (snd (do_POST loads0 int_of_str0 strip0 env_site clk0 req0 world_site_full)) = wdb world_site_full
   \<and> calls (snd (do_POST loads0 int_of_str0 strip0 env_site clk0 req0 world_site_full)) = [''site_total'']
   \<and> calls (snd (do_POST loads0 int_of_str0 strip0 env_site clk0 req0 world_site_open))
       = [''site_total'', ''gemini:gemini-2.5-flash'', ''gemini:gemini-2.5-flash-lite'']
   \<and> (\<exists>rest. calls (snd (do_POST loads0 int_of_str0 strip0 env_site clk0 req0 world_site_open))
                = calls world_site_open @ ''site_total'' # rest
              \<and> ''site_total'' \<notin> set rest)"
proof -
  have h1: "path req0 = ''/api/gemini'' \<or> path req0 = ''/api/flashcraft/generate_deck''"
    by (simp add: req0_def)
  have h3: "body req0 = Some (PDict [])" by (simp add: req0_def)
  have h6: "0 < (5::int) \<or> 0 < (0::int)" by simp
  note T1 = C6_global_scope_first[where str_strip = strip0 and int_of_str = int_of_str0
      and env = env_site and req = req0 and clk = clk0 and w = world_site_full and json_loads = loads0,
      OF h1 env_site_values(1) h3 env_site_values(2,3) h6 refl]
  note T2 = C6_global_scope_first[where str_strip = strip0 and int_of_str = int_of_str0
      and env = env_site and req = req0 and clk = clk0 and w = world_site_open and json_loads = loads0,
      OF h1 env_site_values(1) h3 env_site_values(2,3) h6 refl]
  have calls_full: "calls world_site_full = []" by (simp add: world_site_full_def)
  have d: "\<not> ok_of (fst (consume_limit_at clk0 world_site_full ''site_total'' 5 0))"
    by (simp add: site_full_global)
  from T1 d have a: "do_POST loads0 int_of_str0 strip0 env_site clk0 req0 world_site_full
     = (Response429 (retry_after_of (fst (consume_limit_at clk0 world_site_full ''site_total'' 5 0)))
          (headers_of (fst (consume_limit_at clk0 world_site_full ''site_total'' 5 0)))
          ''Site quota exceeded. Try again later.'',
        snd (consume_limit_at clk0 world_site_full ''site_total'' 5 0))
   \<and> wdb (snd (do_POST loads0 int_of_str0 strip0 env_site clk0 req0 world_site_full)) = wdb world_site_full
   \<and> calls (snd (do_POST loads0 int_of_str0 strip0 env_site clk0 req0 world_site_full))
       = calls world_site_full @ [''site_total'']"
    by blast
  from a have a1: "do_POST loads0 int_of_str0 strip0 env_site clk0 req0 world_site_full
     = (Response429 (retry_after_of (fst (consume_limit_at clk0 world_site_full ''site_total'' 5 0)))
          (headers_of (fst (consume_limit_at clk0 world_site_full ''site_total'' 5 0)))
          ''Site quota exceeded. Try again later.'',
        snd (consume_limit_at clk0 world_site_full ''site_total'' 5 0))"
    and a2: "wdb (snd (do_POST loads0 int_of_str0 strip0 env_site clk0 req0 world_site_full)) = wdb world_site_full"
    and a3: "calls (snd (do_POST loads0 int_of_str0 strip0 env_site clk0 req0 world_site_full))
       = calls world_site_full @ [''site_total'']"
    by blast+
  have a1': "do_POST loads0 int_of_str0 strip0 env_site clk0 req0 world_site_full
     = (Response429 6400 (rate_headers ''site_total'' 5 5 0 0)
          ''Site quota exceeded. Try again later.'',
        snd (consume_limit_at clk0 world_site_full ''site_total'' 5 0))"
    unfolding a1 site_full_global by simp
  have a3': "calls (snd (do_POST loads0 int_of_str0 strip0 env_site clk0 req0 world_site_full)) = [''site_total'']"
    unfolding a3 calls_full by simp
  note a' = conjI[OF a1' conjI[OF a2 a3']]
  from T2 have b: "\<exists>rest. calls (snd (do_POST loads0 int_of_str0 strip0 env_site clk0 req0 world_site_open))
                = calls world_site_open @ ''site_total'' # rest
              \<and> ''site_total'' \<notin> set rest"
    by blast
  from a' b do_POST_site_open_calls show ?thesis by blast
qed

end
